theory Spec2Isabelle
  imports Complex_Main
begin

section \<open>Data model of \<open>blockchain.py\<close>\<close>

text \<open>
  The module builds on two libraries that are not part of the repository: \<open>rsa\<close>
  (signing and verification) and \<open>hashlib\<close> (SHA-256). Both enter the model as
  parameters, so every theorem holds for whatever these libraries compute:
  \<^item> \<open>H\<close> stands for \<open>hashlib.sha256(\<dots>).hexdigest()\<close> applied to the encoded header;
  \<^item> \<open>V\<close> stands for \<open>rsa.verify\<close>: it is \<open>True\<close> when the call returns and
    \<open>False\<close> when it raises.
  The type of the transaction values is a type variable \<open>'v\<close> that has \<open>0\<close>, \<open>1\<close>,
  \<open>+\<close>, \<open>-\<close> and \<open><\<close> and no law about them: the operations of the node are
  defined for every such type, Python's \<open>float\<close> with its rounding, infinities and
  not-a-number among them. Statements that compute sums are made for \<open>real\<close> values,
  where arithmetic is exact. The clock reading only enters the hash and is a \<open>real\<close>.
  Python's \<open>int\<close> is \<open>int\<close>. Console output is left out, and so is
  \<open>Transaction.sign\<close>, which no operation of the node calls.
\<close>

text \<open>\<open>rsa.PublicKey(n, e)\<close>: two integers, compared by value.\<close>

datatype PublicKey = PublicKey int int

text \<open>
  The dataclass \<open>Transaction\<close>. The sender is \<open>None\<close> in a reward transaction; the
  signature is \<open>None\<close> until \<open>sign\<close> has run. The field \<open>value\<close> is named
  \<open>value_tx\<close> here.
\<close>

record 'v Transaction =
  sender_address :: "PublicKey option"
  recipient_address :: PublicKey
  value_tx :: 'v
  signature :: "string option"

text \<open>The dataclass \<open>Block\<close>.\<close>

record 'v Block =
  num :: int
  timestamp :: real
  prev_block_hash :: string
  transactions :: "'v Transaction list"
  block_hash :: string
  nonce :: int

text \<open>
  The exceptions. The source raises plain \<open>Exception\<close>s (and lets the one of
  \<open>rsa.verify\<close> through); they are told apart here by where they are raised.
  \<open>InsufficientFunds\<close> carries the required and the available amount,
  \<open>ChainIntegrityError\<close> carries \<open>None\<close> for a broken link ("Previous hashes do not
  match!") and the block number for a block whose hash fails the proof of work.
\<close>

datatype 'v error =
  SignatureInvalid
| InsufficientFunds 'v 'v
| ChainIntegrityError "int option"

text \<open>The class \<open>BlockchainNode\<close>: its four attributes.\<close>

record 'v BlockchainNode =
  miner_address :: PublicKey
  blocks :: "'v Block list"
  pending_transactions :: "'v Transaction list"
  proof_of_work_func :: "string \<Rightarrow> bool"

section \<open>Transactions\<close>

text \<open>
  \<open>get_core_data\<close> concatenates the renderings of sender, recipient and value; the
  model keeps the three fields themselves.
\<close>

type_synonym 'v core_data = "PublicKey option \<times> PublicKey \<times> 'v"

type_synonym 'v verifier = "'v core_data \<Rightarrow> string option \<Rightarrow> PublicKey option \<Rightarrow> bool"

definition get_core_data :: "'v Transaction \<Rightarrow> 'v core_data" where
  "get_core_data t = (sender_address t, recipient_address t, value_tx t)"

text \<open>\<open>Transaction.validate\<close>: \<open>rsa.verify\<close> on the core data, the signature and the sender.\<close>

definition Transaction_validate :: "'v verifier \<Rightarrow> 'v Transaction \<Rightarrow> 'v error + unit" where
  "Transaction_validate V t =
     (if V (get_core_data t) (signature t) (sender_address t) then Inr ()
      else Inl SignatureInvalid)"

section \<open>Blocks\<close>

text \<open>
  \<open>get_header\<close> concatenates the renderings of number, timestamp, previous hash, nonce
  and transaction list; the model keeps the five fields. The cached \<open>block_hash\<close> is
  not part of the header.
\<close>

type_synonym 'v header = "int \<times> real \<times> string \<times> int \<times> 'v Transaction list"

type_synonym 'v hasher = "'v header \<Rightarrow> string"

definition get_header :: "'v Block \<Rightarrow> 'v header" where
  "get_header b = (num b, timestamp b, prev_block_hash b, nonce b, transactions b)"

text \<open>\<open>Block.hash\<close>: hashes the header, stores the digest in the block and returns it.\<close>

definition Block_hash :: "'v hasher \<Rightarrow> 'v Block \<Rightarrow> string \<times> 'v Block" where
  "Block_hash H b = (let h = H (get_header b) in (h, b\<lparr>block_hash := h\<rparr>))"

text \<open>\<open>Block.validate\<close>: the predicate on the freshly computed (and stored) hash.\<close>

definition Block_validate :: "'v hasher \<Rightarrow> (string \<Rightarrow> bool) \<Rightarrow> 'v Block \<Rightarrow> bool \<times> 'v Block" where
  "Block_validate H pow b = (let r = Block_hash H b in (pow (fst r), snd r))"

section \<open>The node\<close>

text \<open>\<open>REWARD_AMOUNT = 2.0\<close>, written \<open>1 + 1\<close> so that every value type has it.\<close>

definition REWARD_AMOUNT :: "'v::{one,plus}" where
  "REWARD_AMOUNT = 1 + 1"

text \<open>Python's \<open>str.endswith\<close>.\<close>

definition endswith :: "string \<Rightarrow> string \<Rightarrow> bool" where
  "endswith x s = (length s \<le> length x \<and> drop (length x - length s) x = s)"

text \<open>\<open>get_balance\<close>: the body of the inner loop, then the two nested loops.\<close>

definition balance_step :: "PublicKey option \<Rightarrow> 'v::{plus,minus} \<Rightarrow> 'v Transaction \<Rightarrow> 'v" where
  "balance_step address balance t =
     (if sender_address t = address then balance - value_tx t
      else if Some (recipient_address t) = address then balance + value_tx t
      else balance)"

definition get_balance :: "('v::{zero,plus,minus}) BlockchainNode \<Rightarrow> PublicKey option \<Rightarrow> 'v" where
  "get_balance nd address =
     foldl (\<lambda>balance b. foldl (balance_step address) balance (transactions b)) 0 (blocks nd)"

text \<open>
  \<open>submit_transaction\<close>: the result and the node afterwards. An exception leaves the
  node as it was at the moment of the raise.
\<close>

definition submit_transaction ::
  "'v verifier \<Rightarrow> ('v::{zero,plus,minus,ord}) BlockchainNode \<Rightarrow> 'v Transaction \<Rightarrow>
     ('v error + unit) \<times> 'v BlockchainNode" where
  "submit_transaction V nd t =
     (case Transaction_validate V t of
        Inl err \<Rightarrow> (Inl err, nd)
      | Inr u \<Rightarrow>
          (let sender_balance = get_balance nd (sender_address t) in
           if sender_balance < value_tx t
           then (Inl (InsufficientFunds (value_tx t) sender_balance), nd)
           else (Inr (), nd\<lparr>pending_transactions := pending_transactions nd @ [t]\<rparr>)))"

text \<open>
  \<open>execute_pow\<close>: the \<open>while\<close> loop may run forever, so it is a partial function and
  \<open>None\<close> means that it does not return.
\<close>

partial_function (option) pow_loop ::
  "'v hasher \<Rightarrow> (string \<Rightarrow> bool) \<Rightarrow> 'v Block \<Rightarrow> 'v Block option" where
  "pow_loop H pow b =
     (let r = Block_validate H pow b in
      if fst r then Some (snd r)
      else pow_loop H pow ((snd r)\<lparr>nonce := nonce (snd r) + 1\<rparr>))"

definition execute_pow :: "'v hasher \<Rightarrow> 'v BlockchainNode \<Rightarrow> 'v Block \<Rightarrow> 'v Block option" where
  "execute_pow H nd b = pow_loop H (proof_of_work_func nd) (b\<lparr>nonce := 0\<rparr>)"

text \<open>
  \<open>mine_block\<close>. \<open>now\<close> is the reading of \<open>time.time()\<close>. \<open>new_block\<close> is the block
  handed to \<open>execute_pow\<close>: the copy of the pending list with the reward appended, the
  dataclass defaults for hash and nonce.
\<close>

definition new_block :: "real \<Rightarrow> ('v::{one,plus}) BlockchainNode \<Rightarrow> 'v Block" where
  "new_block now nd =
     (let prev_hash = (if length (blocks nd) \<le> 0 then ''-''
                       else block_hash (last (blocks nd)));
          next_num = (if length (blocks nd) \<le> 0 then 0
                      else num (last (blocks nd)) + 1);
          reward = \<lparr>sender_address = None, recipient_address = miner_address nd,
                    value_tx = REWARD_AMOUNT, signature = None\<rparr>
      in \<lparr>num = next_num, timestamp = now, prev_block_hash = prev_hash,
          transactions = pending_transactions nd @ [reward],
          block_hash = '''', nonce = 0\<rparr>)"

definition mine_block ::
  "'v hasher \<Rightarrow> real \<Rightarrow> ('v::{one,plus}) BlockchainNode \<Rightarrow> 'v BlockchainNode option" where
  "mine_block H now nd =
     (case execute_pow H nd (new_block now nd) of
        None \<Rightarrow> None
      | Some mined \<Rightarrow> Some (nd\<lparr>blocks := blocks nd @ [mined], pending_transactions := []\<rparr>))"

text \<open>
  \<open>BlockchainNode.__init__\<close>: the four assignments (\<open>fresh_node\<close>), then the genesis
  block.
\<close>

definition fresh_node :: "PublicKey \<Rightarrow> 'v BlockchainNode" where
  "fresh_node miner =
     \<lparr>miner_address = miner, blocks = [], pending_transactions = [],
      proof_of_work_func = (\<lambda>x. endswith x ''000'')\<rparr>"

definition BlockchainNode_init ::
  "'v hasher \<Rightarrow> real \<Rightarrow> PublicKey \<Rightarrow> ('v::{one,plus}) BlockchainNode option" where
  "BlockchainNode_init H now miner = mine_block H now (fresh_node miner)"

text \<open>
  \<open>validate_chain\<close>: the loop over the blocks with the running previous hash. Each
  \<open>Block.validate\<close> stores the recomputed hash in its block, so the loop returns the
  blocks as it leaves them, also when it raises.
\<close>

fun validate_chain_loop ::
  "'v hasher \<Rightarrow> (string \<Rightarrow> bool) \<Rightarrow> string \<Rightarrow> 'v Block list \<Rightarrow>
     ('v error + unit) \<times> 'v Block list" where
  "validate_chain_loop H pow prev_hash [] = (Inr (), [])"
| "validate_chain_loop H pow prev_hash (b # bs) =
     (if prev_block_hash b \<noteq> prev_hash then (Inl (ChainIntegrityError None), b # bs)
      else (let r = Block_validate H pow b in
            if \<not> fst r then (Inl (ChainIntegrityError (Some (num (snd r)))), snd r # bs)
            else (let rest = validate_chain_loop H pow (block_hash (snd r)) bs
                  in (fst rest, snd r # snd rest))))"

definition validate_chain ::
  "'v hasher \<Rightarrow> 'v BlockchainNode \<Rightarrow> ('v error + unit) \<times> 'v BlockchainNode" where
  "validate_chain H nd =
     (let r = validate_chain_loop H (proof_of_work_func nd) ''-'' (blocks nd)
      in (fst r, nd\<lparr>blocks := snd r\<rparr>))"

section \<open>Notions used in the statements\<close>

text \<open>Nonce \<open>k\<close> solves block \<open>b\<close>: the header of \<open>b\<close> with nonce \<open>k\<close> hashes to a
  string that the predicate accepts.\<close>

definition solves :: "'v hasher \<Rightarrow> (string \<Rightarrow> bool) \<Rightarrow> 'v Block \<Rightarrow> nat \<Rightarrow> bool" where
  "solves H pow b k = pow (H (get_header (b\<lparr>nonce := int k\<rparr>)))"

text \<open>The block \<open>b\<close> as the search leaves it when it stops at nonce \<open>m\<close>.\<close>

definition mined :: "'v hasher \<Rightarrow> 'v Block \<Rightarrow> nat \<Rightarrow> 'v Block" where
  "mined H b m = b\<lparr>nonce := int m, block_hash := H (get_header (b\<lparr>nonce := int m\<rparr>))\<rparr>"

text \<open>
  The ledger states that construction, \<open>submit_transaction\<close> (returning or raising) and
  \<open>mine_block\<close> (when it returns) can produce.
\<close>

inductive reachable ::
  "'v hasher \<Rightarrow> 'v verifier \<Rightarrow> ('v::{zero,one,plus,minus,ord}) BlockchainNode \<Rightarrow> bool"
  for H V where
  construct: "BlockchainNode_init H now miner = Some nd \<Longrightarrow> reachable H V nd"
| submit: "reachable H V nd \<Longrightarrow> submit_transaction V nd t = (r, nd') \<Longrightarrow> reachable H V nd'"
| mine: "reachable H V nd \<Longrightarrow> mine_block H now nd = Some nd' \<Longrightarrow> reachable H V nd'"

text \<open>
  A chain that \<open>validate_chain\<close> accepts and leaves as it is: every block is linked to
  the running previous hash, has its own hash stored, and that hash is accepted by the
  predicate.
\<close>

fun linked :: "'v hasher \<Rightarrow> (string \<Rightarrow> bool) \<Rightarrow> string \<Rightarrow> 'v Block list \<Rightarrow> bool" where
  "linked H pow prev [] = True"
| "linked H pow prev (b # bs) =
     (prev_block_hash b = prev \<and> block_hash b = H (get_header b) \<and>
      pow (H (get_header b)) \<and> linked H pow (H (get_header b)) bs)"

definition sound :: "'v hasher \<Rightarrow> 'v BlockchainNode \<Rightarrow> bool" where
  "sound H nd =
     (proof_of_work_func nd = (\<lambda>x. endswith x ''000'') \<and> blocks nd \<noteq> [] \<and>
      linked H (proof_of_work_func nd) ''-'' (blocks nd))"

text \<open>
  What \<open>validate_chain\<close> checks: the links along the recomputed hashes and the predicate
  on every recomputed hash. The stored hashes play no part.
\<close>

fun chain_ok :: "'v hasher \<Rightarrow> (string \<Rightarrow> bool) \<Rightarrow> string \<Rightarrow> 'v Block list \<Rightarrow> bool" where
  "chain_ok H pow prev [] = True"
| "chain_ok H pow prev (b # bs) =
     (prev_block_hash b = prev \<and> pow (H (get_header b)) \<and> chain_ok H pow (H (get_header b)) bs)"

text \<open>The block with its stored hash overwritten by the recomputed one.\<close>

definition rehashed :: "'v hasher \<Rightarrow> 'v Block \<Rightarrow> 'v Block" where
  "rehashed H b = b\<lparr>block_hash := H (get_header b)\<rparr>"

text \<open>What one transaction adds to the balance of \<open>address\<close> in \<open>get_balance\<close>.\<close>

definition contribution :: "PublicKey option \<Rightarrow> real Transaction \<Rightarrow> real" where
  "contribution address t = balance_step address 0 t"

text \<open>The transactions of the chain, in chain order.\<close>

definition all_transactions :: "'v BlockchainNode \<Rightarrow> 'v Transaction list" where
  "all_transactions nd = concat (map transactions (blocks nd))"

text \<open>
  The balance as the specification words it: every transaction of the chain takes its
  value from the balance of its sender and adds it to the balance of its recipient,
  both when the two are the same address.
\<close>

definition spec_contribution :: "PublicKey option \<Rightarrow> real Transaction \<Rightarrow> real" where
  "spec_contribution address t =
     (if sender_address t = address then - value_tx t else 0) +
     (if Some (recipient_address t) = address then value_tx t else 0)"

definition spec_balance :: "real BlockchainNode \<Rightarrow> PublicKey option \<Rightarrow> real" where
  "spec_balance nd address = (\<Sum>t\<leftarrow>all_transactions nd. spec_contribution address t)"

text \<open>The addresses seen in the chain (senders and recipients), each once, and the sum
  of their balances.\<close>

definition seen_addresses :: "'v BlockchainNode \<Rightarrow> PublicKey list" where
  "seen_addresses nd =
     remdups (concat (map (\<lambda>t. (case sender_address t of None \<Rightarrow> [] | Some a \<Rightarrow> [a]) @
                                  [recipient_address t])
                          (all_transactions nd)))"

definition total_balance :: "real BlockchainNode \<Rightarrow> real" where
  "total_balance nd = (\<Sum>a\<leftarrow>seen_addresses nd. get_balance nd (Some a))"

text \<open>Several submissions in a row: the results and the node after the last one.\<close>

fun submit_all ::
  "'v verifier \<Rightarrow> ('v::{zero,plus,minus,ord}) BlockchainNode \<Rightarrow> 'v Transaction list \<Rightarrow>
     ('v error + unit) list \<times> 'v BlockchainNode" where
  "submit_all V nd [] = ([], nd)"
| "submit_all V nd (t # ts) =
     (let r = submit_transaction V nd t; rest = submit_all V (snd r) ts
      in (fst r # fst rest, snd rest))"

section \<open>A concrete instance\<close>

text \<open>
  A small instance of the two library parameters, on which the model is evaluated at
  concrete ledgers. \<open>demo_sha\<close> depends on the timestamp, on the number of
  transactions and on the nonce; it ends in \<open>000\<close> when nonce plus number of
  transactions is 3 modulo 4.
  \<open>demo_verify\<close> accepts a transaction that has a sender and carries the signature
  \<open>signed\<close>.
\<close>

definition demo_sha :: "'v hasher" where
  "demo_sha hdr =
     (case hdr of (n, ts, prev, k, txs) \<Rightarrow>
        (if ts < 1 then ''a'' else ''b'') @ replicate (length txs) (CHR ''7'') @
        (if (k + int (length txs)) mod 4 = 3 then ''000'' else ''fff''))"

definition demo_verify :: "'v verifier" where
  "demo_verify core sg sender = (sender \<noteq> None \<and> sg = Some ''signed'')"

definition alice :: PublicKey where
  "alice = PublicKey 3233 17"

definition bob :: PublicKey where
  "bob = PublicKey 2773 17"

text \<open>
  Concrete ledgers: the reward transaction, the genesis block that \<open>alice\<close> mines with
  \<open>demo_sha\<close> at time 0, her ledger after construction, a signed transfer of 2 from
  \<open>alice\<close> to \<open>bob\<close>, and the second block mined at time 1 from the pending
  transactions \<open>txs\<close>.
\<close>

definition reward_to :: "PublicKey \<Rightarrow> real Transaction" where
  "reward_to miner =
     \<lparr>sender_address = None, recipient_address = miner, value_tx = 2, signature = None\<rparr>"

definition genesis_block :: "real Block" where
  "genesis_block =
     \<lparr>num = 0, timestamp = 0, prev_block_hash = ''-'', transactions = [reward_to alice],
      block_hash = ''a7000'', nonce = 2\<rparr>"

definition ledger0 :: "real BlockchainNode" where
  "ledger0 =
     \<lparr>miner_address = alice, blocks = [genesis_block], pending_transactions = [],
      proof_of_work_func = (\<lambda>x. endswith x ''000'')\<rparr>"

definition pay :: "real Transaction" where
  "pay = \<lparr>sender_address = Some alice, recipient_address = bob, value_tx = 2,
          signature = Some ''signed''\<rparr>"

definition second_block :: "real Transaction list \<Rightarrow> real Block" where
  "second_block txs =
     \<lparr>num = 1, timestamp = 1, prev_block_hash = ''a7000'',
      transactions = txs @ [reward_to alice],
      block_hash = ''b'' @ replicate (length txs + 1) (CHR ''7'') @ ''000'',
      nonce = (3 - (int (length txs) + 1)) mod 4\<rparr>"

text \<open>A signed transfer of \<open>x\<close> from \<open>alice\<close> to herself.\<close>

definition self_pay :: "real \<Rightarrow> real Transaction" where
  "self_pay x = \<lparr>sender_address = Some alice, recipient_address = alice, value_tx = x,
                 signature = Some ''signed''\<rparr>"

text \<open>A signed transfer of 2 from \<open>bob\<close> to \<open>alice\<close>.\<close>

definition pay_back :: "real Transaction" where
  "pay_back = \<lparr>sender_address = Some bob, recipient_address = alice, value_tx = 2,
               signature = Some ''signed''\<rparr>"

section \<open>Values with infinities\<close>

text \<open>
  Values with the two infinities and the not-a-number of floats; the finite part is
  exact. An instance of the value type on which an infinite balance can be followed.
\<close>

datatype xfloat = Fin real | PInf | NInf | NaN

fun xneg :: "xfloat \<Rightarrow> xfloat" where
  "xneg (Fin a) = Fin (- a)"
| "xneg PInf = NInf"
| "xneg NInf = PInf"
| "xneg NaN = NaN"

instantiation xfloat :: "{zero,one,plus,minus,ord}"
begin

definition zero_xfloat :: xfloat where
  "zero_xfloat = Fin 0"

definition one_xfloat :: xfloat where
  "one_xfloat = Fin 1"

fun plus_xfloat :: "xfloat \<Rightarrow> xfloat \<Rightarrow> xfloat" where
  "plus_xfloat NaN y = NaN"
| "plus_xfloat x NaN = NaN"
| "plus_xfloat (Fin a) (Fin b) = Fin (a + b)"
| "plus_xfloat PInf NInf = NaN"
| "plus_xfloat NInf PInf = NaN"
| "plus_xfloat PInf y = PInf"
| "plus_xfloat x PInf = PInf"
| "plus_xfloat NInf y = NInf"
| "plus_xfloat x NInf = NInf"

definition minus_xfloat :: "xfloat \<Rightarrow> xfloat \<Rightarrow> xfloat" where
  "minus_xfloat x y = x + xneg y"

fun less_xfloat :: "xfloat \<Rightarrow> xfloat \<Rightarrow> bool" where
  "less_xfloat NaN y = False"
| "less_xfloat x NaN = False"
| "less_xfloat (Fin a) (Fin b) = (a < b)"
| "less_xfloat x NInf = False"
| "less_xfloat NInf y = True"
| "less_xfloat PInf y = False"
| "less_xfloat x PInf = True"

definition less_eq_xfloat :: "xfloat \<Rightarrow> xfloat \<Rightarrow> bool" where
  "less_eq_xfloat x y = (x < y \<or> (x = y \<and> x \<noteq> NaN))"

instance ..

end

section \<open>The proof-of-work search\<close>

lemma get_header_block_hash [simp]: "get_header (b\<lparr>block_hash := h\<rparr>) = get_header b"
  by (simp add: get_header_def)

lemma Block_validate_eq:
  "Block_validate H pow b = (pow (H (get_header b)), b\<lparr>block_hash := H (get_header b)\<rparr>)"
  by (simp add: Block_validate_def Block_hash_def Let_def)

lemma pow_loop_done:
  "pow (H (get_header b)) \<Longrightarrow> pow_loop H pow b = Some (b\<lparr>block_hash := H (get_header b)\<rparr>)"
  by (subst pow_loop.simps) (simp add: Block_validate_eq)

lemma pow_loop_step:
  "\<not> pow (H (get_header b)) \<Longrightarrow>
   pow_loop H pow b = pow_loop H pow (b\<lparr>block_hash := H (get_header b), nonce := nonce b + 1\<rparr>)"
  by (subst pow_loop.simps) (simp add: Block_validate_eq)

lemma solves_upd [simp]:
  "solves H pow (b\<lparr>block_hash := h, nonce := k\<rparr>) = solves H pow b"
  by (rule ext) (simp add: solves_def get_header_def)

lemma Block_overwrite:
  "b\<lparr>block_hash := h, nonce := k, nonce := m, block_hash := c\<rparr> = b\<lparr>nonce := m, block_hash := c\<rparr>"
  by (cases b) simp

text \<open>The loop started at nonce \<open>j\<close> stops at the first solving nonce from \<open>j\<close> on.\<close>

lemma pow_loop_from:
  assumes "solves H pow b m" and "\<forall>i<m. j \<le> i \<longrightarrow> \<not> solves H pow b i" and "j \<le> m"
    and "nonce b = int j"
  shows "pow_loop H pow b =
         Some (b\<lparr>nonce := int m, block_hash := H (get_header (b\<lparr>nonce := int m\<rparr>))\<rparr>)"
  using assms
proof (induction "m - j" arbitrary: j b)
  case 0
  then have "b\<lparr>nonce := int m\<rparr> = b" by simp
  with "0.prems"(1) show ?case
    by (simp add: pow_loop_done solves_def)
next
  case (Suc d)
  then have lt: "j < m" by simp
  have self: "b\<lparr>nonce := int j\<rparr> = b" using Suc.prems(4) by simp
  from lt Suc.prems(2) have "\<not> solves H pow b j" by simp
  then have no: "\<not> pow (H (get_header b))" by (simp add: solves_def self)
  let ?b = "b\<lparr>block_hash := H (get_header b), nonce := nonce b + 1\<rparr>"
  have "pow_loop H pow ?b =
        Some (?b\<lparr>nonce := int m, block_hash := H (get_header (?b\<lparr>nonce := int m\<rparr>))\<rparr>)"
  proof (rule Suc.hyps(1))
    show "d = m - Suc j" using Suc.hyps(2) by simp
    show "solves H pow ?b m" using Suc.prems(1) by simp
    show "\<forall>i<m. Suc j \<le> i \<longrightarrow> \<not> solves H pow ?b i" using Suc.prems(2) by simp
    show "Suc j \<le> m" using lt by simp
    show "nonce ?b = int (Suc j)" using Suc.prems(4) by simp
  qed
  moreover have "get_header (?b\<lparr>nonce := int m\<rparr>) = get_header (b\<lparr>nonce := int m\<rparr>)"
    by (simp add: get_header_def)
  moreover have "pow_loop H pow b = pow_loop H pow ?b"
    using no by (rule pow_loop_step [of pow H b])
  ultimately show ?case
    by (simp add: Block_overwrite)
qed

lemma execute_pow_first:
  assumes m: "solves H (proof_of_work_func nd) b m"
    and least: "\<forall>k<m. \<not> solves H (proof_of_work_func nd) b k"
  shows "execute_pow H nd b =
         Some (b\<lparr>nonce := int m, block_hash := H (get_header (b\<lparr>nonce := int m\<rparr>))\<rparr>)"
proof -
  let ?b = "b\<lparr>nonce := 0\<rparr>"
  have S: "solves H (proof_of_work_func nd) ?b k = solves H (proof_of_work_func nd) b k" for k
    by (simp add: solves_def)
  have p1: "solves H (proof_of_work_func nd) ?b m"
    unfolding S by (rule m)
  have p2: "\<forall>i<m. 0 \<le> i \<longrightarrow> \<not> solves H (proof_of_work_func nd) ?b i"
    unfolding S using least by blast
  have p3: "nonce ?b = int 0" by simp
  have "pow_loop H (proof_of_work_func nd) ?b =
     Some (?b\<lparr>nonce := int m, block_hash := H (get_header (?b\<lparr>nonce := int m\<rparr>))\<rparr>)"
    by (rule pow_loop_from [of H "proof_of_work_func nd" ?b m 0, OF p1 p2 le0 p3])
  then show ?thesis
    by (simp add: execute_pow_def)
qed

text \<open>
  C8. If some nonce solves the block, \<open>execute_pow\<close> returns; the returned block is the
  given one with its nonce set to the least solving natural number \<open>m\<close> and its stored
  hash set to the hash of the header at nonce \<open>m\<close>; no smaller nonce solves the block.
\<close>

theorem execute_pow_least:
  assumes "\<exists>k. solves H (proof_of_work_func nd) b k"
  shows "\<exists>m. execute_pow H nd b =
               Some (b\<lparr>nonce := int m, block_hash := H (get_header (b\<lparr>nonce := int m\<rparr>))\<rparr>)
            \<and> m = (LEAST k. solves H (proof_of_work_func nd) b k)
            \<and> solves H (proof_of_work_func nd) b m
            \<and> (\<forall>k<m. \<not> solves H (proof_of_work_func nd) b k)"
proof -
  let ?S = "solves H (proof_of_work_func nd) b"
  let ?m = "LEAST k. ?S k"
  from assms have m: "?S ?m" by (auto intro: LeastI)
  have least: "\<forall>k<?m. \<not> ?S k" by (auto dest: not_less_Least)
  show ?thesis
  proof (intro exI [of _ ?m] conjI)
    show "execute_pow H nd b =
     Some (b\<lparr>nonce := int ?m, block_hash := H (get_header (b\<lparr>nonce := int ?m\<rparr>))\<rparr>)"
      by (rule execute_pow_first [OF m least])
    show "?m = ?m" by (rule refl)
    show "?S ?m" by (rule m)
    show "\<forall>k<?m. \<not> ?S k" by (rule least)
  qed
qed

lemma demo_pow [simp]:
  "endswith (demo_sha (n, ts, prev, k, txs)) ''000'' = ((k + int (length txs)) mod 4 = 3)"
  by (simp add: demo_sha_def endswith_def)

theorem execute_pow_least_witness:
  "execute_pow demo_sha (fresh_node alice :: real BlockchainNode) (new_block 0 (fresh_node alice)) =
   Some ((new_block 0 (fresh_node alice))\<lparr>nonce := 2, block_hash := ''a7000''\<rparr>)"
proof -
  let ?nd = "fresh_node alice :: real BlockchainNode"
  let ?b = "new_block 0 ?nd"
  have S: "solves demo_sha (proof_of_work_func ?nd) ?b k = ((int k + 1) mod 4 = 3)" for k
    by (simp add: solves_def fresh_node_def get_header_def new_block_def)
  then have "solves demo_sha (proof_of_work_func ?nd) ?b 2" by simp
  then have "\<exists>k. solves demo_sha (proof_of_work_func ?nd) ?b k" ..
  from execute_pow_least [OF this] obtain m where
    E: "execute_pow demo_sha ?nd ?b =
          Some (?b\<lparr>nonce := int m, block_hash := demo_sha (get_header (?b\<lparr>nonce := int m\<rparr>))\<rparr>)"
    and m: "solves demo_sha (proof_of_work_func ?nd) ?b m"
    and least: "\<forall>k<m. \<not> solves demo_sha (proof_of_work_func ?nd) ?b k"
    by blast
  have "solves demo_sha (proof_of_work_func ?nd) ?b 2"
    and "\<not> solves demo_sha (proof_of_work_func ?nd) ?b 0"
    and "\<not> solves demo_sha (proof_of_work_func ?nd) ?b 1"
    by (simp_all add: S)
  with m least have "\<not> 2 < m" "m \<noteq> 0" "m \<noteq> 1" by metis+
  then have "m = 2" by arith
  with E show ?thesis
    by (simp add: get_header_def demo_sha_def new_block_def fresh_node_def)
qed

section \<open>Mining and the chain invariant\<close>

lemma pow_loop_Some:
  assumes ret: "pow_loop H pow b = Some b'"
  shows "\<exists>d. b' = b\<lparr>nonce := nonce b + int d,
               block_hash := H (get_header (b\<lparr>nonce := nonce b + int d\<rparr>))\<rparr>
      \<and> pow (H (get_header (b\<lparr>nonce := nonce b + int d\<rparr>)))"
proof (rule pow_loop.raw_induct [where P = "\<lambda>H pow b b'.
      \<exists>d. b' = b\<lparr>nonce := nonce b + int d,
               block_hash := H (get_header (b\<lparr>nonce := nonce b + int d\<rparr>))\<rparr>
      \<and> pow (H (get_header (b\<lparr>nonce := nonce b + int d\<rparr>)))", OF _ ret])
  fix f H pow b b'
  assume IH: "\<And>H pow b b'. f H pow b = Some b' \<Longrightarrow>
     \<exists>d. b' = b\<lparr>nonce := nonce b + int d,
               block_hash := H (get_header (b\<lparr>nonce := nonce b + int d\<rparr>))\<rparr>
      \<and> pow (H (get_header (b\<lparr>nonce := nonce b + int d\<rparr>)))"
    and body: "(let r = Block_validate H pow b in
                if fst r then Some (snd r)
                else f H pow ((snd r)\<lparr>nonce := nonce (snd r) + 1\<rparr>)) = Some b'"
  show "\<exists>d. b' = b\<lparr>nonce := nonce b + int d,
               block_hash := H (get_header (b\<lparr>nonce := nonce b + int d\<rparr>))\<rparr>
      \<and> pow (H (get_header (b\<lparr>nonce := nonce b + int d\<rparr>)))"
  proof (cases "pow (H (get_header b))")
    case True
    with body have "b' = b\<lparr>block_hash := H (get_header b)\<rparr>"
      by (simp add: Block_validate_eq)
    with True show ?thesis
      by (intro exI [of _ 0]) simp
  next
    case False
    let ?b = "b\<lparr>block_hash := H (get_header b), nonce := nonce b + 1\<rparr>"
    from False body have "f H pow ?b = Some b'"
      by (simp add: Block_validate_eq)
    from IH [OF this] obtain d where
      dp: "b' = ?b\<lparr>nonce := nonce ?b + int d,
               block_hash := H (get_header (?b\<lparr>nonce := nonce ?b + int d\<rparr>))\<rparr>
         \<and> pow (H (get_header (?b\<lparr>nonce := nonce ?b + int d\<rparr>)))" ..
    note d = conjunct1 [OF dp] and p = conjunct2 [OF dp]
    have h: "get_header (?b\<lparr>nonce := nonce ?b + int d\<rparr>) =
             get_header (b\<lparr>nonce := nonce b + int (Suc d)\<rparr>)"
      by (simp add: get_header_def)
    have "b' = b\<lparr>nonce := nonce b + int (Suc d),
               block_hash := H (get_header (b\<lparr>nonce := nonce b + int (Suc d)\<rparr>))\<rparr>"
      unfolding d h by (cases b) simp
    with p h show ?thesis by (intro exI [of _ "Suc d"]) simp
  qed
qed


lemma execute_pow_Some:
  assumes "execute_pow H nd b = Some b'"
  shows "\<exists>m. b' = mined H b m \<and> solves H (proof_of_work_func nd) b m"
proof -
  from assms have "pow_loop H (proof_of_work_func nd) (b\<lparr>nonce := 0\<rparr>) = Some b'"
    by (simp add: execute_pow_def)
  from pow_loop_Some [OF this] obtain d where
    "b' = b\<lparr>nonce := 0\<rparr>\<lparr>nonce := nonce (b\<lparr>nonce := 0\<rparr>) + int d,
          block_hash := H (get_header (b\<lparr>nonce := 0\<rparr>\<lparr>nonce := nonce (b\<lparr>nonce := 0\<rparr>) + int d\<rparr>))\<rparr>
     \<and> proof_of_work_func nd
          (H (get_header (b\<lparr>nonce := 0\<rparr>\<lparr>nonce := nonce (b\<lparr>nonce := 0\<rparr>) + int d\<rparr>)))" ..
  then have "b' = mined H b d \<and> solves H (proof_of_work_func nd) b d"
    by (simp add: mined_def solves_def)
  then show ?thesis ..
qed

lemma mine_block_returns:
  assumes "solves H (proof_of_work_func nd) (new_block now nd) m"
    and "\<forall>k<m. \<not> solves H (proof_of_work_func nd) (new_block now nd) k"
  shows "mine_block H now nd =
         Some (nd\<lparr>blocks := blocks nd @ [mined H (new_block now nd) m],
                  pending_transactions := []\<rparr>)"
  by (simp add: mine_block_def execute_pow_first [OF assms] mined_def)

lemma mine_block_returns_least:
  assumes "\<exists>k. solves H (proof_of_work_func nd) (new_block now nd) k"
  shows "mine_block H now nd =
         Some (nd\<lparr>blocks := blocks nd @
                   [mined H (new_block now nd)
                      (LEAST k. solves H (proof_of_work_func nd) (new_block now nd) k)],
                  pending_transactions := []\<rparr>)"
proof -
  let ?S = "solves H (proof_of_work_func nd) (new_block now nd)"
  from assms have m: "?S (LEAST k. ?S k)" by (auto intro: LeastI)
  have least: "\<forall>k<LEAST k. ?S k. \<not> ?S k" by (auto dest: not_less_Least)
  show ?thesis by (rule mine_block_returns [OF m least])
qed

lemma mine_block_Some:
  assumes "mine_block H now nd = Some nd'"
  shows "\<exists>m. nd' = nd\<lparr>blocks := blocks nd @ [mined H (new_block now nd) m],
                       pending_transactions := []\<rparr>
            \<and> solves H (proof_of_work_func nd) (new_block now nd) m"
proof -
  from assms obtain b' where e: "execute_pow H nd (new_block now nd) = Some b'"
    and nd': "nd' = nd\<lparr>blocks := blocks nd @ [b'], pending_transactions := []\<rparr>"
    by (auto simp: mine_block_def split: option.splits)
  from execute_pow_Some [OF e] obtain m where
    "b' = mined H (new_block now nd) m \<and> solves H (proof_of_work_func nd) (new_block now nd) m" ..
  with nd' show ?thesis by blast
qed

lemma mined_fields [simp]:
  "num (mined H b m) = num b"
  "timestamp (mined H b m) = timestamp b"
  "prev_block_hash (mined H b m) = prev_block_hash b"
  "transactions (mined H b m) = transactions b"
  "nonce (mined H b m) = int m"
  "block_hash (mined H b m) = H (get_header (mined H b m))"
  by (simp_all add: mined_def get_header_def)

lemma new_block_fields [simp]:
  "num (new_block now nd) = (if blocks nd = [] then 0 else num (last (blocks nd)) + 1)"
  "timestamp (new_block now nd) = now"
  "prev_block_hash (new_block now nd) =
     (if blocks nd = [] then ''-'' else block_hash (last (blocks nd)))"
  "transactions (new_block now nd) =
     pending_transactions nd @
     [\<lparr>sender_address = None, recipient_address = miner_address nd,
       value_tx = REWARD_AMOUNT, signature = None\<rparr>]"
  by (simp_all add: new_block_def)

lemma solves_mined: "solves H pow b m \<Longrightarrow> pow (H (get_header (mined H b m)))"
  by (simp add: solves_def mined_def)

lemma linked_append:
  "linked H pow prev (bs @ [b]) =
     (linked H pow prev bs \<and>
      prev_block_hash b = (if bs = [] then prev else H (get_header (last bs))) \<and>
      block_hash b = H (get_header b) \<and> pow (H (get_header b)))"
  by (induction bs arbitrary: prev) auto

lemma linked_nth:
  "linked H pow prev bs \<Longrightarrow> i < length bs \<Longrightarrow>
   prev_block_hash (bs ! i) = (if i = 0 then prev else H (get_header (bs ! (i - 1)))) \<and>
   block_hash (bs ! i) = H (get_header (bs ! i)) \<and> pow (H (get_header (bs ! i)))"
proof (induction bs arbitrary: prev i)
  case Nil
  then show ?case by simp
next
  case (Cons b bs)
  show ?case
  proof (cases i)
    case 0
    with Cons.prems show ?thesis by simp
  next
    case (Suc j)
    with Cons.prems have "linked H pow (H (get_header b)) bs" and "j < length bs" by simp_all
    from Cons.IH [OF this] Suc show ?thesis by (cases j) simp_all
  qed
qed

lemma linked_last:
  assumes "linked H pow prev bs" and "bs \<noteq> []"
  shows "block_hash (last bs) = H (get_header (last bs))"
proof -
  from assms(2) have "length bs - 1 < length bs" by simp
  from linked_nth [OF assms(1) this] show ?thesis
    by (simp add: last_conv_nth [OF assms(2)])
qed

lemma mine_block_sound:
  assumes "mine_block H now nd = Some nd'"
    and "proof_of_work_func nd = (\<lambda>x. endswith x ''000'')"
    and "linked H (proof_of_work_func nd) ''-'' (blocks nd)"
  shows "sound H nd'"
proof -
  from mine_block_Some [OF assms(1)] obtain m where
    "nd' = nd\<lparr>blocks := blocks nd @ [mined H (new_block now nd) m],
                       pending_transactions := []\<rparr>
            \<and> solves H (proof_of_work_func nd) (new_block now nd) m" ..
  then have nd': "nd' = nd\<lparr>blocks := blocks nd @ [mined H (new_block now nd) m],
                       pending_transactions := []\<rparr>"
    and "solves H (proof_of_work_func nd) (new_block now nd) m" by simp_all
  from solves_mined [OF this(2)]
  have "proof_of_work_func nd (H (get_header (mined H (new_block now nd) m)))" .
  with assms(2,3) show ?thesis
    unfolding sound_def nd' by (simp add: linked_append linked_last [OF assms(3)])
qed

lemma reachable_sound: "reachable H V nd \<Longrightarrow> sound H nd"
proof (induction rule: reachable.induct)
  case (construct now miner nd)
  then show ?case
    unfolding BlockchainNode_init_def
    by (rule mine_block_sound) (simp_all add: fresh_node_def)
next
  case (submit nd t r nd')
  from submit.hyps(2) have "blocks nd' = blocks nd"
    and "proof_of_work_func nd' = proof_of_work_func nd"
    by (auto simp: submit_transaction_def Let_def split: sum.splits if_splits)
  with submit.IH show ?case by (auto simp: sound_def)
next
  case (mine nd now nd')
  from mine.IH show ?case
    by (intro mine_block_sound [OF mine.hyps(2)]) (auto simp: sound_def)
qed

text \<open>
  C1. In every reachable ledger state the chain is non-empty, the first block carries
  the sentinel \<open>-\<close> as previous hash, every later block carries the stored hash of
  its predecessor, and \<open>Block.validate\<close> with the node's predicate holds of every
  stored block.
\<close>

theorem reachable_chain_invariant:
  assumes "reachable H V nd"
  shows "blocks nd \<noteq> [] \<and> prev_block_hash (blocks nd ! 0) = ''-'' \<and>
         (\<forall>i. 0 < i \<and> i < length (blocks nd) \<longrightarrow>
              prev_block_hash (blocks nd ! i) = block_hash (blocks nd ! (i - 1))) \<and>
         (\<forall>b \<in> set (blocks nd). fst (Block_validate H (proof_of_work_func nd) b))"
proof -
  from reachable_sound [OF assms] have ne: "blocks nd \<noteq> []"
    and l: "linked H (proof_of_work_func nd) ''-'' (blocks nd)"
    by (auto simp: sound_def)
  from ne have "0 < length (blocks nd)" by simp
  from linked_nth [OF l this] have g: "prev_block_hash (blocks nd ! 0) = ''-''" by simp
  have link: "prev_block_hash (blocks nd ! i) = block_hash (blocks nd ! (i - 1))"
    if "0 < i \<and> i < length (blocks nd)" for i
  proof -
    from that have "i - 1 < length (blocks nd)" and "i < length (blocks nd)" and "i \<noteq> 0"
      by auto
    with linked_nth [OF l, of i] linked_nth [OF l, of "i - 1"] show ?thesis
      by auto
  qed
  have pw: "fst (Block_validate H (proof_of_work_func nd) b)" if "b \<in> set (blocks nd)" for b
  proof -
    from that obtain i where "i < length (blocks nd)" and "blocks nd ! i = b"
      by (auto simp: in_set_conv_nth)
    with linked_nth [OF l, of i] show ?thesis
      by (simp add: Block_validate_eq)
  qed
  from ne g link pw show ?thesis by blast
qed

section \<open>Evaluation on the concrete ledgers\<close>

lemma demo_solves:
  "solves demo_sha (\<lambda>x. endswith x ''000'') b k =
     ((int k + int (length (transactions b))) mod 4 = 3)"
  by (simp add: solves_def get_header_def)

lemma init_demo: "BlockchainNode_init demo_sha 0 alice = Some ledger0"
proof -
  let ?nd = "fresh_node alice"
  have "mine_block demo_sha 0 ?nd =
        Some (?nd\<lparr>blocks := blocks ?nd @ [mined demo_sha (new_block 0 ?nd) (Suc (Suc 0))],
                 pending_transactions := []\<rparr>)"
    by (rule mine_block_returns) (simp_all add: demo_solves fresh_node_def All_less_Suc)
  also have "mined demo_sha (new_block 0 ?nd) (Suc (Suc 0)) = genesis_block"
    by (simp add: mined_def new_block_def genesis_block_def fresh_node_def get_header_def
        demo_sha_def reward_to_def REWARD_AMOUNT_def)
  finally show ?thesis
    by (simp add: BlockchainNode_init_def ledger0_def fresh_node_def)
qed

lemma submit_pay:
  "submit_transaction demo_verify ledger0 pay =
     (Inr (), ledger0\<lparr>pending_transactions := [pay]\<rparr>)"
  by (simp add: submit_transaction_def Transaction_validate_def demo_verify_def get_core_data_def
      pay_def ledger0_def get_balance_def genesis_block_def reward_to_def balance_step_def)

lemma mine_pay:
  "mine_block demo_sha 1 (ledger0\<lparr>pending_transactions := [pay]\<rparr>) =
     Some (ledger0\<lparr>blocks := [genesis_block, second_block [pay]]\<rparr>)"
proof -
  let ?nd = "ledger0\<lparr>pending_transactions := [pay]\<rparr>"
  have "mine_block demo_sha 1 ?nd =
        Some (?nd\<lparr>blocks := blocks ?nd @ [mined demo_sha (new_block 1 ?nd) (Suc 0)],
                 pending_transactions := []\<rparr>)"
    by (rule mine_block_returns) (simp_all add: demo_solves ledger0_def All_less_Suc)
  also have "mined demo_sha (new_block 1 ?nd) (Suc 0) = second_block [pay]"
    by (simp add: mined_def new_block_def genesis_block_def ledger0_def get_header_def
        demo_sha_def reward_to_def REWARD_AMOUNT_def second_block_def)
  finally show ?thesis
    by (simp add: ledger0_def)
qed

section \<open>Construction, mining and submission\<close>

theorem reachable_chain_invariant_witness:
  "reachable demo_sha demo_verify (ledger0\<lparr>blocks := [genesis_block, second_block [pay]]\<rparr>) \<and>
   prev_block_hash genesis_block = ''-'' \<and>
   prev_block_hash (second_block [pay]) = block_hash genesis_block \<and>
   fst (Block_validate demo_sha (\<lambda>x. endswith x ''000'') genesis_block) \<and>
   fst (Block_validate demo_sha (\<lambda>x. endswith x ''000'') (second_block [pay]))"
proof -
  let ?nd = "ledger0\<lparr>blocks := [genesis_block, second_block [pay]]\<rparr>"
  have "reachable demo_sha demo_verify ledger0"
    by (rule reachable.construct [OF init_demo])
  then have "reachable demo_sha demo_verify (ledger0\<lparr>pending_transactions := [pay]\<rparr>)"
    by (rule reachable.submit [OF _ submit_pay])
  then have r: "reachable demo_sha demo_verify ?nd"
    by (rule reachable.mine [OF _ mine_pay])
  note inv = reachable_chain_invariant [OF r]
  have p: "proof_of_work_func ?nd = (\<lambda>x. endswith x ''000'')" by (simp add: ledger0_def)
  from inv have "prev_block_hash (blocks ?nd ! 0) = ''-''" by blast
  then have a: "prev_block_hash genesis_block = ''-''" by simp
  from inv have "0 < (1::nat) \<and> 1 < length (blocks ?nd) \<longrightarrow>
      prev_block_hash (blocks ?nd ! 1) = block_hash (blocks ?nd ! (1 - 1))" by blast
  then have b: "prev_block_hash (second_block [pay]) = block_hash genesis_block" by simp
  from inv have "\<forall>b \<in> set (blocks ?nd). fst (Block_validate demo_sha (proof_of_work_func ?nd) b)"
    by blast
  then have c: "fst (Block_validate demo_sha (\<lambda>x. endswith x ''000'') genesis_block)"
    and d: "fst (Block_validate demo_sha (\<lambda>x. endswith x ''000'') (second_block [pay]))"
    unfolding p by simp_all
  from r a b c d show ?thesis by blast
qed

text \<open>
  C3. \<open>mine_block\<close> has no error result. Whenever some nonce solves the new block, it
  returns, and then the chain has grown by exactly one block, numbered one more than the
  last block (0, with previous hash \<open>-\<close>, on an empty chain), linked to the stored hash
  of the last block, holding the pending transactions in order followed by the reward
  transaction (no sender, value 2.0, to the miner); the pending queue is empty.
\<close>

theorem mine_block_grows:
  assumes "\<exists>k. solves H (proof_of_work_func nd) (new_block now nd) k"
  shows "\<exists>nd' b. mine_block H now nd = Some nd' \<and>
           blocks nd' = blocks nd @ [b] \<and> pending_transactions nd' = [] \<and>
           miner_address nd' = miner_address nd \<and>
           proof_of_work_func nd' = proof_of_work_func nd \<and>
           num b = (if blocks nd = [] then 0 else num (last (blocks nd)) + 1) \<and>
           prev_block_hash b = (if blocks nd = [] then ''-'' else block_hash (last (blocks nd))) \<and>
           timestamp b = now \<and>
           transactions b =
             pending_transactions nd @
             [\<lparr>sender_address = None, recipient_address = miner_address nd,
               value_tx = 2, signature = None\<rparr>] \<and>
           block_hash b = H (get_header b) \<and> proof_of_work_func nd (block_hash b)"
proof -
  let ?b = "mined H (new_block now nd) (LEAST k. solves H (proof_of_work_func nd) (new_block now nd) k)"
  let ?nd = "nd\<lparr>blocks := blocks nd @ [?b], pending_transactions := []\<rparr>"
  from assms have m: "solves H (proof_of_work_func nd) (new_block now nd)
                        (LEAST k. solves H (proof_of_work_func nd) (new_block now nd) k)"
    by (auto intro: LeastI)
  have ret: "mine_block H now nd = Some ?nd"
    by (rule mine_block_returns_least [OF assms])
  have pw: "proof_of_work_func nd (block_hash ?b)"
    using solves_mined [OF m] by simp
  show ?thesis
  proof (intro exI [of _ ?nd] exI [of _ ?b] conjI)
    show "mine_block H now nd = Some ?nd" by (rule ret)
    show "proof_of_work_func nd (block_hash ?b)" by (rule pw)
  qed (simp_all add: REWARD_AMOUNT_def)
qed

theorem mine_block_grows_witness:
  "\<exists>nd' b. mine_block demo_sha 1 (ledger0\<lparr>pending_transactions := [pay]\<rparr>) = Some nd' \<and>
      blocks nd' = [genesis_block, b] \<and> pending_transactions nd' = [] \<and>
      num b = 1 \<and> prev_block_hash b = ''a7000'' \<and>
      transactions b = [pay, reward_to alice]"
proof -
  let ?nd = "ledger0\<lparr>pending_transactions := [pay]\<rparr>"
  have "solves demo_sha (proof_of_work_func ?nd) (new_block 1 ?nd) 1"
    by (simp add: ledger0_def demo_solves)
  then have "\<exists>k. solves demo_sha (proof_of_work_func ?nd) (new_block 1 ?nd) k" ..
  from mine_block_grows [OF this] obtain nd' b where
    "mine_block demo_sha 1 ?nd = Some nd'" and "blocks nd' = blocks ?nd @ [b]"
    and "pending_transactions nd' = []"
    and "num b = (if blocks ?nd = [] then 0 else num (last (blocks ?nd)) + 1)"
    and "prev_block_hash b = (if blocks ?nd = [] then ''-'' else block_hash (last (blocks ?nd)))"
    and "transactions b = pending_transactions ?nd @
           [\<lparr>sender_address = None, recipient_address = miner_address ?nd,
             value_tx = 2, signature = None\<rparr>]"
    by blast
  then have "mine_block demo_sha 1 ?nd = Some nd' \<and>
      blocks nd' = [genesis_block, b] \<and> pending_transactions nd' = [] \<and>
      num b = 1 \<and> prev_block_hash b = ''a7000'' \<and>
      transactions b = [pay, reward_to alice]"
    by (simp add: ledger0_def genesis_block_def reward_to_def)
  then show ?thesis by blast
qed

text \<open>
  C4. \<open>submit_transaction\<close> raises \<open>SignatureInvalid\<close> and leaves the node as it was
  when the signature does not verify; with a verified signature it raises
  \<open>InsufficientFunds\<close> and leaves the node as it was when the sender's balance is below
  the value; otherwise it returns and the only change is the transaction appended to the
  pending queue. The chain is the same in all three cases.
\<close>

theorem submit_transaction_cases:
  "(\<not> V (get_core_data t) (signature t) (sender_address t) \<longrightarrow>
      submit_transaction V nd t = (Inl SignatureInvalid, nd)) \<and>
   (V (get_core_data t) (signature t) (sender_address t) \<and>
    get_balance nd (sender_address t) < value_tx t \<longrightarrow>
      submit_transaction V nd t =
        (Inl (InsufficientFunds (value_tx t) (get_balance nd (sender_address t))), nd)) \<and>
   (V (get_core_data t) (signature t) (sender_address t) \<and>
    \<not> get_balance nd (sender_address t) < value_tx t \<longrightarrow>
      submit_transaction V nd t =
        (Inr (), nd\<lparr>pending_transactions := pending_transactions nd @ [t]\<rparr>)) \<and>
   blocks (snd (submit_transaction V nd t)) = blocks nd"
  by (simp add: submit_transaction_def Transaction_validate_def Let_def)

theorem submit_transaction_cases_witness:
  "submit_transaction demo_verify ledger0 (pay\<lparr>signature := None\<rparr>) =
     (Inl SignatureInvalid, ledger0) \<and>
   submit_transaction demo_verify ledger0 (pay\<lparr>value_tx := 3\<rparr>) =
     (Inl (InsufficientFunds 3 2), ledger0) \<and>
   submit_transaction demo_verify ledger0 pay =
     (Inr (), ledger0\<lparr>pending_transactions := [pay]\<rparr>)"
proof -
  have v: "demo_verify (get_core_data (pay\<lparr>value_tx := x\<rparr>)) (Some ''signed'') (Some alice)"
    for x
    by (simp add: demo_verify_def)
  have b: "get_balance ledger0 (Some alice) = 2"
    by (simp add: get_balance_def ledger0_def genesis_block_def reward_to_def balance_step_def)
  have "submit_transaction demo_verify ledger0 (pay\<lparr>signature := None\<rparr>) =
     (Inl SignatureInvalid, ledger0)"
    using submit_transaction_cases [of demo_verify "pay\<lparr>signature := None\<rparr>" ledger0]
    by (simp add: demo_verify_def)
  moreover have "submit_transaction demo_verify ledger0 (pay\<lparr>value_tx := 3\<rparr>) =
     (Inl (InsufficientFunds 3 2), ledger0)"
    using submit_transaction_cases [of demo_verify "pay\<lparr>value_tx := 3\<rparr>" ledger0] v [of 3] b
    by (simp add: pay_def)
  moreover have "submit_transaction demo_verify ledger0 pay =
     (Inr (), ledger0\<lparr>pending_transactions := [pay]\<rparr>)"
    using submit_transaction_cases [of demo_verify pay ledger0] v [of 2] b
    by (simp add: pay_def ledger0_def)
  ultimately show ?thesis by blast
qed

section \<open>Balances\<close>

lemma balance_step_contribution: "balance_step a acc t = acc + contribution a t"
  by (simp add: balance_step_def contribution_def)

lemma foldl_balance_step:
  "foldl (balance_step a) acc ts = acc + (\<Sum>t\<leftarrow>ts. contribution a t)"
  by (induction ts arbitrary: acc) (simp_all add: balance_step_contribution)

lemma foldl_blocks_balance:
  "foldl (\<lambda>balance b. foldl (balance_step a) balance (transactions b)) acc bs =
   acc + (\<Sum>t\<leftarrow>concat (map transactions bs). contribution a t)"
  by (induction bs arbitrary: acc) (simp_all add: foldl_balance_step)

lemma get_balance_sum: "get_balance nd a = (\<Sum>t\<leftarrow>all_transactions nd. contribution a t)"
  by (simp add: get_balance_def all_transactions_def foldl_blocks_balance)

lemma contribution_eq:
  "contribution a t =
     (if sender_address t = a then - value_tx t
      else if Some (recipient_address t) = a then value_tx t else 0)"
  by (simp add: contribution_def balance_step_def)

lemma contribution_spec:
  "contribution a t =
     spec_contribution a t -
     (if sender_address t = a \<and> Some (recipient_address t) = a then value_tx t else 0)"
  by (simp add: contribution_eq spec_contribution_def)

lemma sum_contribution_spec:
  "(\<Sum>t\<leftarrow>ts. contribution a t) =
     (\<Sum>t\<leftarrow>ts. spec_contribution a t) -
     (\<Sum>t\<leftarrow>ts. if sender_address t = a \<and> Some (recipient_address t) = a
              then value_tx t else 0)"
  by (induction ts) (simp_all add: contribution_spec)

lemma get_balance_spec:
  "get_balance nd a =
     spec_balance nd a -
     (\<Sum>t\<leftarrow>all_transactions nd.
        if sender_address t = a \<and> Some (recipient_address t) = a then value_tx t else 0)"
  unfolding get_balance_sum spec_balance_def
  by (rule sum_contribution_spec)

lemma sum_list_all_zero: "\<forall>t \<in> set ts. f t = (0::real) \<Longrightarrow> (\<Sum>t\<leftarrow>ts. f t) = 0"
  by (induction ts) simp_all

lemma get_balance_unseen:
  assumes "\<forall>t \<in> set (all_transactions (nd :: real BlockchainNode)).
             sender_address t \<noteq> a \<and> Some (recipient_address t) \<noteq> a"
  shows "get_balance nd a = 0"
proof -
  from assms have "\<forall>t \<in> set (all_transactions nd). contribution a t = 0"
    by (simp add: contribution_eq)
  then have "(\<Sum>t\<leftarrow>all_transactions nd. contribution a t) = 0"
    by (rule sum_list_all_zero)
  then show ?thesis by (simp add: get_balance_sum)
qed

lemma submit_demo:
  assumes "sender_address t = Some alice" and "signature t = Some ''signed''"
    and "value_tx t \<le> 2"
  shows "submit_transaction demo_verify (ledger0\<lparr>pending_transactions := p\<rparr>) t =
         (Inr (), ledger0\<lparr>pending_transactions := p @ [t]\<rparr>)"
  using assms
  by (simp add: submit_transaction_def Transaction_validate_def demo_verify_def
      ledger0_def get_balance_def genesis_block_def reward_to_def balance_step_def)

lemma mine_one:
  "mine_block demo_sha 1 (ledger0\<lparr>pending_transactions := [t]\<rparr>) =
     Some (ledger0\<lparr>blocks := [genesis_block, second_block [t]]\<rparr>)"
proof -
  let ?nd = "ledger0\<lparr>pending_transactions := [t]\<rparr>"
  have "mine_block demo_sha 1 ?nd =
        Some (?nd\<lparr>blocks := blocks ?nd @ [mined demo_sha (new_block 1 ?nd) (Suc 0)],
                 pending_transactions := []\<rparr>)"
    by (rule mine_block_returns) (simp_all add: demo_solves ledger0_def All_less_Suc)
  also have "mined demo_sha (new_block 1 ?nd) (Suc 0) = second_block [t]"
    by (simp add: mined_def new_block_def genesis_block_def ledger0_def get_header_def
        demo_sha_def reward_to_def REWARD_AMOUNT_def second_block_def)
  finally show ?thesis
    by (simp add: ledger0_def)
qed

lemma mine_two:
  "mine_block demo_sha 1 (ledger0\<lparr>pending_transactions := [t, u]\<rparr>) =
     Some (ledger0\<lparr>blocks := [genesis_block, second_block [t, u]]\<rparr>)"
proof -
  let ?nd = "ledger0\<lparr>pending_transactions := [t, u]\<rparr>"
  have "mine_block demo_sha 1 ?nd =
        Some (?nd\<lparr>blocks := blocks ?nd @ [mined demo_sha (new_block 1 ?nd) 0],
                 pending_transactions := []\<rparr>)"
    by (rule mine_block_returns) (simp_all add: demo_solves ledger0_def)
  also have "mined demo_sha (new_block 1 ?nd) 0 = second_block [t, u]"
    by (simp add: mined_def new_block_def genesis_block_def ledger0_def get_header_def
        demo_sha_def reward_to_def REWARD_AMOUNT_def second_block_def)
  finally show ?thesis
    by (simp add: ledger0_def)
qed

lemma get_balance_second:
  "get_balance (ledger0\<lparr>blocks := [genesis_block, second_block txs]\<rparr>) a =
     contribution a (reward_to alice) + (\<Sum>t\<leftarrow>txs. contribution a t) +
     contribution a (reward_to alice)"
  by (simp add: get_balance_sum all_transactions_def ledger0_def genesis_block_def
      second_block_def)

lemma all_transactions_second:
  "all_transactions (ledger0\<lparr>blocks := [genesis_block, second_block txs]\<rparr>) =
     reward_to alice # txs @ [reward_to alice]"
  by (simp add: all_transactions_def ledger0_def genesis_block_def second_block_def)

text \<open>
  C2. \<open>alice\<close> transfers 2 to herself; the transfer is accepted and mined. Then
  \<open>get_balance\<close> gives her 2, whereas the decrement and the increment of every
  transaction together give 4: the \<open>elif\<close> of \<open>get_balance\<close> skips the increment of
  a transaction whose sender is the queried address.
\<close>

theorem get_balance_self_transfer:
  "submit_transaction demo_verify ledger0 (self_pay 2) =
     (Inr (), ledger0\<lparr>pending_transactions := [self_pay 2]\<rparr>) \<and>
   mine_block demo_sha 1 (ledger0\<lparr>pending_transactions := [self_pay 2]\<rparr>) =
     Some (ledger0\<lparr>blocks := [genesis_block, second_block [self_pay 2]]\<rparr>) \<and>
   get_balance (ledger0\<lparr>blocks := [genesis_block, second_block [self_pay 2]]\<rparr>)
     (Some alice) = 2 \<and>
   spec_balance (ledger0\<lparr>blocks := [genesis_block, second_block [self_pay 2]]\<rparr>)
     (Some alice) = 4"
proof -
  have "submit_transaction demo_verify (ledger0\<lparr>pending_transactions := []\<rparr>) (self_pay 2) =
     (Inr (), ledger0\<lparr>pending_transactions := [] @ [self_pay 2]\<rparr>)"
    by (rule submit_demo) (simp_all add: self_pay_def)
  then have "submit_transaction demo_verify ledger0 (self_pay 2) =
     (Inr (), ledger0\<lparr>pending_transactions := [self_pay 2]\<rparr>)"
    by (simp add: ledger0_def)
  moreover have "get_balance (ledger0\<lparr>blocks := [genesis_block, second_block [self_pay 2]]\<rparr>)
     (Some alice) = 2"
    by (simp add: get_balance_second contribution_eq reward_to_def self_pay_def)
  moreover have "spec_balance (ledger0\<lparr>blocks := [genesis_block, second_block [self_pay 2]]\<rparr>)
     (Some alice) = 4"
    by (simp add: spec_balance_def all_transactions_second spec_contribution_def reward_to_def
        self_pay_def)
  ultimately show ?thesis using mine_one [of "self_pay 2"] by blast
qed

text \<open>
  C7. The same ledger is reachable and has two mined blocks; \<open>alice\<close> is the only
  address seen; the balances of the seen addresses sum to 2, not to twice the reward.
\<close>

theorem total_balance_self_transfer:
  "reachable demo_sha demo_verify (ledger0\<lparr>blocks := [genesis_block, second_block [self_pay 2]]\<rparr>) \<and>
   length (blocks (ledger0\<lparr>blocks := [genesis_block, second_block [self_pay 2]]\<rparr>)) = 2 \<and>
   seen_addresses (ledger0\<lparr>blocks := [genesis_block, second_block [self_pay 2]]\<rparr>) = [alice] \<and>
   total_balance (ledger0\<lparr>blocks := [genesis_block, second_block [self_pay 2]]\<rparr>) = 2 \<and>
   2 * (REWARD_AMOUNT :: real) = 4"
proof -
  let ?nd = "ledger0\<lparr>blocks := [genesis_block, second_block [self_pay 2]]\<rparr>"
  have s: "submit_transaction demo_verify (ledger0\<lparr>pending_transactions := []\<rparr>) (self_pay 2) =
     (Inr (), ledger0\<lparr>pending_transactions := [] @ [self_pay 2]\<rparr>)"
    by (rule submit_demo) (simp_all add: self_pay_def)
  have l: "ledger0\<lparr>pending_transactions := []\<rparr> = ledger0" by (simp add: ledger0_def)
  have "reachable demo_sha demo_verify ledger0"
    by (rule reachable.construct [OF init_demo])
  then have "reachable demo_sha demo_verify (ledger0\<lparr>pending_transactions := [self_pay 2]\<rparr>)"
    using s unfolding l by (simp add: reachable.submit)
  then have r: "reachable demo_sha demo_verify ?nd"
    by (rule reachable.mine [OF _ mine_one])
  have a: "seen_addresses ?nd = [alice]"
    by (simp add: seen_addresses_def all_transactions_second reward_to_def self_pay_def)
  have "total_balance ?nd = 2"
    unfolding total_balance_def a
    by (simp add: get_balance_second contribution_eq reward_to_def self_pay_def)
  with r a show ?thesis by (simp add: REWARD_AMOUNT_def)
qed

section \<open>Spending against the mined chain only\<close>

lemma get_balance_pending [simp]:
  "get_balance (nd\<lparr>pending_transactions := p\<rparr>) a = get_balance nd a"
  by (simp add: get_balance_def)

lemma get_balance_blocks_append:
  "get_balance (nd\<lparr>blocks := blocks nd @ [b]\<rparr>) a =
   get_balance nd a + (\<Sum>t\<leftarrow>transactions b. contribution a t)"
  by (simp add: get_balance_sum all_transactions_def)

lemma contribution_reward:
  "contribution (Some x)
     \<lparr>sender_address = None, recipient_address = miner, value_tx = REWARD_AMOUNT,
      signature = None\<rparr> = (if miner = x then 2 else 0)"
  by (simp add: contribution_eq REWARD_AMOUNT_def)

lemma get_balance_mine:
  assumes "mine_block H now nd = Some nd'"
  shows "get_balance nd' (Some x) =
         get_balance nd (Some x) + (\<Sum>t\<leftarrow>pending_transactions nd. contribution (Some x) t) +
         (if miner_address nd = x then 2 else 0)"
proof -
  from mine_block_Some [OF assms] obtain m where
    "nd' = nd\<lparr>blocks := blocks nd @ [mined H (new_block now nd) m],
              pending_transactions := []\<rparr>
     \<and> solves H (proof_of_work_func nd) (new_block now nd) m" ..
  then have "get_balance nd' (Some x) =
     get_balance (nd\<lparr>blocks := blocks nd @ [mined H (new_block now nd) m]\<rparr>) (Some x)"
    by simp
  also have "\<dots> = get_balance nd (Some x) +
      (\<Sum>t\<leftarrow>transactions (mined H (new_block now nd) m). contribution (Some x) t)"
    by (rule get_balance_blocks_append)
  also have "\<dots> = get_balance nd (Some x) +
      (\<Sum>t\<leftarrow>pending_transactions nd. contribution (Some x) t) +
      (if miner_address nd = x then 2 else 0)"
    by (simp add: contribution_reward)
  finally show ?thesis .
qed

lemma submit_all_accepts:
  assumes "\<forall>t \<in> set ts. V (get_core_data t) (signature t) (sender_address t) \<and>
                        \<not> get_balance nd (sender_address t) < value_tx t"
  shows "submit_all V nd ts =
         (replicate (length ts) (Inr ()),
          nd\<lparr>pending_transactions := pending_transactions nd @ ts\<rparr>)"
  using assms
proof (induction ts arbitrary: nd)
  case Nil
  then show ?case by simp
next
  case (Cons t ts)
  let ?nd = "nd\<lparr>pending_transactions := pending_transactions nd @ [t]\<rparr>"
  from Cons.prems have s: "submit_transaction V nd t = (Inr (), ?nd)"
    by (simp add: submit_transaction_def Transaction_validate_def)
  from Cons.prems have "\<forall>u \<in> set ts. V (get_core_data u) (signature u) (sender_address u) \<and>
                        \<not> get_balance ?nd (sender_address u) < value_tx u"
    by simp
  from Cons.IH [OF this] s show ?case by simp
qed

lemma sum_contribution_sender:
  "\<forall>t \<in> set ts. sender_address t = a \<and> value_tx t = B \<Longrightarrow>
   (\<Sum>t\<leftarrow>ts. contribution a t) = - (real (length ts) * B)"
  by (induction ts) (simp_all add: contribution_eq algebra_simps)

lemma get_balance_blocks_fold:
  "get_balance (nd\<lparr>blocks := blocks nd @ [b]\<rparr>) a =
   foldl (balance_step a) (get_balance nd a) (transactions b)"
  by (simp add: get_balance_def)

lemma get_balance_mine_fold:
  assumes "mine_block H now nd = Some nd'"
  shows "get_balance nd' a =
         foldl (balance_step a) (get_balance nd a)
           (pending_transactions nd @
            [\<lparr>sender_address = None, recipient_address = miner_address nd,
              value_tx = REWARD_AMOUNT, signature = None\<rparr>])"
proof -
  from mine_block_Some [OF assms] obtain m where
    "nd' = nd\<lparr>blocks := blocks nd @ [mined H (new_block now nd) m],
              pending_transactions := []\<rparr>
     \<and> solves H (proof_of_work_func nd) (new_block now nd) m" ..
  then have "get_balance nd' a =
     get_balance (nd\<lparr>blocks := blocks nd @ [mined H (new_block now nd) m]\<rparr>) a"
    by simp
  also have "\<dots> = foldl (balance_step a) (get_balance nd a)
                    (transactions (mined H (new_block now nd) m))"
    by (rule get_balance_blocks_fold)
  finally show ?thesis by simp
qed

lemma foldl_balance_step_sender:
  "\<forall>t \<in> set ts. sender_address t = a \<and> value_tx t = B \<Longrightarrow>
   foldl (balance_step a) x ts = ((\<lambda>y. y - B) ^^ length ts) x"
proof (induction ts arbitrary: x)
  case Nil
  then show ?case by simp
next
  case (Cons t ts)
  define f where "f = (\<lambda>y. y - B)"
  from Cons.prems have "balance_step a x t = f x" by (simp add: balance_step_def f_def)
  moreover from Cons.prems have "\<forall>u \<in> set ts. sender_address u = a \<and> value_tx u = B" by simp
  from Cons.IH [OF this] have "foldl (balance_step a) (f x) ts = (f ^^ length ts) (f x)"
    by (simp add: f_def)
  moreover have "(f ^^ length ts) (f x) = (f ^^ length (t # ts)) x"
    by (simp add: funpow_swap1)
  ultimately show ?case by (simp add: f_def)
qed

lemma spend_negative:
  fixes B :: "'v::{zero,minus,ord}"
  assumes twice: "B - B - B < 0" and down: "\<forall>x. x < 0 \<longrightarrow> x - B < 0" and k: "2 \<le> k"
  shows "((\<lambda>y. y - B) ^^ k) B < 0"
proof -
  from k obtain j where "k = Suc (Suc j)" by (auto simp: le_Suc_eq numeral_2_eq_2 dest: Suc_le_D)
  moreover have "((\<lambda>y. y - B) ^^ Suc (Suc j)) B < 0"
  proof (induction j)
    case 0
    from twice show ?case by simp
  next
    case (Suc j)
    with down show ?case by simp
  qed
  ultimately show ?thesis by simp
qed

lemma spend_negative_real:
  "0 < (B::real) \<Longrightarrow> B - B - B < 0 \<and> (\<forall>x. x < 0 \<longrightarrow> x - B < 0)"
  by simp

text \<open>
  C9, as amended. The funds check reads the mined chain only: when the balance of \<open>s\<close>
  is \<open>B\<close>, any number of verified transactions from \<open>s\<close> of value \<open>B\<close> each, submitted in
  a row, are all accepted (\<open>B < B\<close> is false). If the next \<open>mine_block\<close> finds a nonce, it
  returns, and the balance of \<open>s\<close> is then what the new block makes of \<open>B\<close>: the
  transactions pending before applied in order, then \<open>B\<close> subtracted once for each of the
  submitted ones, then the reward added when \<open>s\<close> is the miner. With nothing pending
  before and \<open>s\<close> not the miner this is \<open>B\<close> with \<open>B\<close> subtracted once per transaction, and
  it is negative for two or more of them whenever \<open>B - B - B\<close> is negative and subtracting
  \<open>B\<close> from a negative value gives a negative value. Nothing is assumed of the
  arithmetic of the values: the statement holds for the floats of the source, where the
  last two conditions hold for every finite \<open>B > 0\<close> and fail for an infinite one.
\<close>

theorem repeated_spend:
  fixes nd :: "('v::{zero,one,plus,minus,ord}) BlockchainNode"
  assumes bal: "get_balance nd (Some s) = B" and irr: "\<not> B < B"
    and txs: "\<forall>t \<in> set ts. sender_address t = Some s \<and> value_tx t = B \<and>
                           V (get_core_data t) (signature t) (sender_address t)"
  shows "submit_all V nd ts =
           (replicate (length ts) (Inr ()),
            nd\<lparr>pending_transactions := pending_transactions nd @ ts\<rparr>) \<and>
         ((\<exists>k. solves H (proof_of_work_func nd)
                 (new_block now (nd\<lparr>pending_transactions := pending_transactions nd @ ts\<rparr>)) k)
          \<longrightarrow>
          (\<exists>nd'. mine_block H now (nd\<lparr>pending_transactions := pending_transactions nd @ ts\<rparr>)
                   = Some nd' \<and>
                 get_balance nd' (Some s) =
                   (let x = ((\<lambda>y. y - B) ^^ length ts)
                              (foldl (balance_step (Some s)) B (pending_transactions nd))
                    in if miner_address nd = s then x + REWARD_AMOUNT else x) \<and>
                 (pending_transactions nd = [] \<and> miner_address nd \<noteq> s \<longrightarrow>
                    get_balance nd' (Some s) = ((\<lambda>y. y - B) ^^ length ts) B) \<and>
                 (pending_transactions nd = [] \<and> miner_address nd \<noteq> s \<and> 2 \<le> length ts \<and>
                  B - B - B < 0 \<and> (\<forall>x. x < 0 \<longrightarrow> x - B < 0)
                    \<longrightarrow> get_balance nd' (Some s) < 0)))"
proof (intro conjI impI)
  let ?nd = "nd\<lparr>pending_transactions := pending_transactions nd @ ts\<rparr>"
  let ?reward = "\<lparr>sender_address = None, recipient_address = miner_address nd,
                  value_tx = REWARD_AMOUNT :: 'v, signature = None\<rparr>"
  let ?x = "((\<lambda>y. y - B) ^^ length ts) (foldl (balance_step (Some s)) B (pending_transactions nd))"
  from bal irr txs show "submit_all V nd ts = (replicate (length ts) (Inr ()), ?nd)"
    by (intro submit_all_accepts) auto
  assume "\<exists>k. solves H (proof_of_work_func nd) (new_block now ?nd) k"
  then have "\<exists>k. solves H (proof_of_work_func ?nd) (new_block now ?nd) k" by simp
  from mine_block_returns_least [OF this] obtain nd' where ret: "mine_block H now ?nd = Some nd'"
    by blast
  from txs have s: "\<forall>t \<in> set ts. sender_address t = Some s \<and> value_tx t = B" by simp
  have "get_balance nd' (Some s) =
        foldl (balance_step (Some s)) (get_balance ?nd (Some s))
          (pending_transactions ?nd @ [?reward])"
    using get_balance_mine_fold [OF ret, of "Some s"] by simp
  also have "\<dots> = balance_step (Some s) ?x ?reward"
    by (simp add: bal foldl_balance_step_sender [OF s])
  also have "\<dots> = (if miner_address nd = s then ?x + REWARD_AMOUNT else ?x)"
    by (simp add: balance_step_def)
  finally have after: "get_balance nd' (Some s) =
      (if miner_address nd = s then ?x + REWARD_AMOUNT else ?x)" .
  have plain: "get_balance nd' (Some s) = ((\<lambda>y. y - B) ^^ length ts) B"
    if "pending_transactions nd = [] \<and> miner_address nd \<noteq> s"
    using that after by simp
  have neg: "get_balance nd' (Some s) < 0"
    if "pending_transactions nd = [] \<and> miner_address nd \<noteq> s \<and> 2 \<le> length ts \<and>
        B - B - B < 0 \<and> (\<forall>x. x < 0 \<longrightarrow> x - B < 0)"
  proof -
    from that have "((\<lambda>y. y - B) ^^ length ts) B < 0"
      by (intro spend_negative) blast+
    with plain that show ?thesis by simp
  qed
  from ret after plain neg
  show "\<exists>nd'. mine_block H now ?nd = Some nd' \<and>
                 get_balance nd' (Some s) =
                   (let x = ?x in if miner_address nd = s then x + REWARD_AMOUNT else x) \<and>
                 (pending_transactions nd = [] \<and> miner_address nd \<noteq> s \<longrightarrow>
                    get_balance nd' (Some s) = ((\<lambda>y. y - B) ^^ length ts) B) \<and>
                 (pending_transactions nd = [] \<and> miner_address nd \<noteq> s \<and> 2 \<le> length ts \<and>
                  B - B - B < 0 \<and> (\<forall>x. x < 0 \<longrightarrow> x - B < 0)
                    \<longrightarrow> get_balance nd' (Some s) < 0)"
    unfolding Let_def by blast
qed


theorem repeated_spend_witness:
  "submit_all demo_verify (ledger0\<lparr>blocks := [genesis_block, second_block [pay]]\<rparr>)
     [pay_back, pay_back] =
     ([Inr (), Inr ()],
      ledger0\<lparr>blocks := [genesis_block, second_block [pay]],
              pending_transactions := [pay_back, pay_back]\<rparr>) \<and>
   (\<exists>nd'. mine_block demo_sha 2
            (ledger0\<lparr>blocks := [genesis_block, second_block [pay]],
                    pending_transactions := [pay_back, pay_back]\<rparr>) = Some nd' \<and>
          get_balance nd' (Some bob) = - 2 \<and> get_balance nd' (Some bob) < 0)"
proof -
  let ?nd = "ledger0\<lparr>blocks := [genesis_block, second_block [pay]]\<rparr>"
  let ?ts = "[pay_back, pay_back]"
  have ab: "alice \<noteq> bob" by (simp add: alice_def bob_def)
  have bal: "get_balance ?nd (Some bob) = 2"
    using ab by (simp add: get_balance_second contribution_eq reward_to_def pay_def)
  have irr: "\<not> (2::real) < 2" by simp
  have txs: "\<forall>t \<in> set ?ts. sender_address t = Some bob \<and> value_tx t = 2 \<and>
                 demo_verify (get_core_data t) (signature t) (sender_address t)"
    by (simp add: pay_back_def demo_verify_def)
  have p: "pending_transactions ?nd = []" and m: "miner_address ?nd \<noteq> bob"
    using ab by (simp_all add: ledger0_def)
  have "solves demo_sha (proof_of_work_func ?nd)
          (new_block 2 (?nd\<lparr>pending_transactions := pending_transactions ?nd @ ?ts\<rparr>)) 0"
    by (simp add: ledger0_def demo_solves)
  then have ex: "\<exists>k. solves demo_sha (proof_of_work_func ?nd)
          (new_block 2 (?nd\<lparr>pending_transactions := pending_transactions ?nd @ ?ts\<rparr>)) k" ..
  have cond: "(2::real) - 2 - 2 < 0 \<and> (\<forall>x. x < 0 \<longrightarrow> x - (2::real) < 0)" by simp
  note T = repeated_spend [of ?nd bob 2 ?ts demo_verify demo_sha 2, OF bal irr txs]
  from T have a: "submit_all demo_verify ?nd ?ts =
      (replicate (length ?ts) (Inr ()),
       ?nd\<lparr>pending_transactions := pending_transactions ?nd @ ?ts\<rparr>)" by (rule conjunct1)
  from T ex obtain nd' where
    "mine_block demo_sha 2 (?nd\<lparr>pending_transactions := pending_transactions ?nd @ ?ts\<rparr>)
       = Some nd'"
    and "pending_transactions ?nd = [] \<and> miner_address ?nd \<noteq> bob \<longrightarrow>
           get_balance nd' (Some bob) = ((\<lambda>y. y - 2) ^^ length ?ts) 2"
    and "pending_transactions ?nd = [] \<and> miner_address ?nd \<noteq> bob \<and> 2 \<le> length ?ts \<and>
         (2::real) - 2 - 2 < 0 \<and> (\<forall>x. x < 0 \<longrightarrow> x - (2::real) < 0)
           \<longrightarrow> get_balance nd' (Some bob) < 0"
    by blast
  with p m cond have "mine_block demo_sha 2 (?nd\<lparr>pending_transactions := ?ts\<rparr>) = Some nd' \<and>
      get_balance nd' (Some bob) = - 2 \<and> get_balance nd' (Some bob) < 0"
    by (simp add: numeral_2_eq_2)
  then have "\<exists>nd'. mine_block demo_sha 2 (?nd\<lparr>pending_transactions := ?ts\<rparr>) = Some nd' \<and>
      get_balance nd' (Some bob) = - 2 \<and> get_balance nd' (Some bob) < 0" ..
  with a p show ?thesis by simp
qed

text \<open>
  With exact arithmetic (values as reals) the iterated subtraction is \<open>B\<close> minus \<open>B\<close> times
  the number of transactions, and \<open>B > 0\<close> is enough for the conditions on \<open>B\<close>.
\<close>

lemma repeated_spend_exact:
  assumes bal: "get_balance nd (Some s) = B" and pos: "0 < (B::real)"
    and txs: "\<forall>t \<in> set ts. sender_address t = Some s \<and> value_tx t = B \<and>
                           V (get_core_data t) (signature t) (sender_address t)"
  shows "submit_all V nd ts =
           (replicate (length ts) (Inr ()),
            nd\<lparr>pending_transactions := pending_transactions nd @ ts\<rparr>) \<and>
         ((\<exists>k. solves H (proof_of_work_func nd)
                 (new_block now (nd\<lparr>pending_transactions := pending_transactions nd @ ts\<rparr>)) k)
          \<longrightarrow>
          (\<exists>nd'. mine_block H now (nd\<lparr>pending_transactions := pending_transactions nd @ ts\<rparr>)
                   = Some nd' \<and>
                 get_balance nd' (Some s) =
                   B - real (length ts) * B +
                   (\<Sum>t\<leftarrow>pending_transactions nd. contribution (Some s) t) +
                   (if miner_address nd = s then 2 else 0) \<and>
                 (pending_transactions nd = [] \<and> miner_address nd \<noteq> s \<and> 2 \<le> length ts
                    \<longrightarrow> get_balance nd' (Some s) < 0)))"
proof (intro conjI impI)
  let ?nd = "nd\<lparr>pending_transactions := pending_transactions nd @ ts\<rparr>"
  from bal txs show "submit_all V nd ts = (replicate (length ts) (Inr ()), ?nd)"
    by (intro submit_all_accepts) auto
  assume "\<exists>k. solves H (proof_of_work_func nd) (new_block now ?nd) k"
  then have "\<exists>k. solves H (proof_of_work_func ?nd) (new_block now ?nd) k" by simp
  from mine_block_returns_least [OF this] obtain nd' where ret: "mine_block H now ?nd = Some nd'"
    by blast
  from txs have "(\<Sum>t\<leftarrow>ts. contribution (Some s) t) = - (real (length ts) * B)"
    by (intro sum_contribution_sender) simp
  with get_balance_mine [OF ret, of s] bal
  have after: "get_balance nd' (Some s) =
                   B - real (length ts) * B +
                   (\<Sum>t\<leftarrow>pending_transactions nd. contribution (Some s) t) +
                   (if miner_address nd = s then 2 else 0)"
    by simp
  have neg: "get_balance nd' (Some s) < 0"
    if "pending_transactions nd = [] \<and> miner_address nd \<noteq> s \<and> 2 \<le> length ts"
  proof -
    from that have "2 \<le> real (length ts)" by simp
    with pos have "2 * B \<le> real (length ts) * B" by (intro mult_right_mono) simp_all
    with that pos after show ?thesis by simp
  qed
  from ret after neg
  show "\<exists>nd'. mine_block H now ?nd = Some nd' \<and>
                 get_balance nd' (Some s) =
                   B - real (length ts) * B +
                   (\<Sum>t\<leftarrow>pending_transactions nd. contribution (Some s) t) +
                   (if miner_address nd = s then 2 else 0) \<and>
                 (pending_transactions nd = [] \<and> miner_address nd \<noteq> s \<and> 2 \<le> length ts
                    \<longrightarrow> get_balance nd' (Some s) < 0)"
    by blast
qed

text \<open>
  On values with infinities: an infinite balance can be spent twice as well, the
  balance is then not a number and not negative; for a finite positive balance the two
  conditions on \<open>B\<close> hold.
\<close>

lemma spend_infinite:
  "\<not> PInf < PInf \<and> ((\<lambda>y. y - PInf) ^^ 2) PInf = NaN \<and> \<not> NaN < (0::xfloat) \<and>
   \<not> PInf - PInf - PInf < (0::xfloat)"
  by (simp add: numeral_2_eq_2 minus_xfloat_def zero_xfloat_def)

lemma spend_finite:
  "0 < B \<Longrightarrow> Fin B - Fin B - Fin B < 0 \<and> (\<forall>x. x < 0 \<longrightarrow> x - Fin B < 0)"
proof -
  assume B: "0 < B"
  have "x - Fin B < 0" if "x < 0" for x
    using that B by (cases x) (simp_all add: minus_xfloat_def zero_xfloat_def)
  with B show ?thesis by (simp add: minus_xfloat_def zero_xfloat_def)
qed

text \<open>
  C9, as stated, fails when the sender is the miner: \<open>alice\<close> holds 2 after
  construction, her two transfers of 2 are both accepted, and after the next block her
  balance is 0, the reward of that block included.
\<close>

theorem double_spend_by_miner:
  "get_balance ledger0 (Some alice) = 2 \<and>
   submit_all demo_verify ledger0 [pay, pay] =
     ([Inr (), Inr ()], ledger0\<lparr>pending_transactions := [pay, pay]\<rparr>) \<and>
   mine_block demo_sha 1 (ledger0\<lparr>pending_transactions := [pay, pay]\<rparr>) =
     Some (ledger0\<lparr>blocks := [genesis_block, second_block [pay, pay]]\<rparr>) \<and>
   get_balance (ledger0\<lparr>blocks := [genesis_block, second_block [pay, pay]]\<rparr>) (Some alice) = 0 \<and>
   \<not> get_balance (ledger0\<lparr>blocks := [genesis_block, second_block [pay, pay]]\<rparr>) (Some alice) < 0"
proof -
  have b: "get_balance ledger0 (Some alice) = 2"
    by (simp add: get_balance_def ledger0_def genesis_block_def reward_to_def balance_step_def)
  have "\<forall>t \<in> set [pay, pay]. demo_verify (get_core_data t) (signature t) (sender_address t) \<and>
                        \<not> get_balance ledger0 (sender_address t) < value_tx t"
    using b by (simp add: pay_def demo_verify_def)
  from submit_all_accepts [OF this]
  have s: "submit_all demo_verify ledger0 [pay, pay] =
     ([Inr (), Inr ()], ledger0\<lparr>pending_transactions := [pay, pay]\<rparr>)"
    by (simp add: ledger0_def numeral_2_eq_2)
  have g: "get_balance (ledger0\<lparr>blocks := [genesis_block, second_block [pay, pay]]\<rparr>)
             (Some alice) = 0"
    by (simp add: get_balance_second contribution_eq reward_to_def pay_def)
  from b s g mine_two [of pay pay] show ?thesis by simp
qed

section \<open>Negative values\<close>

lemma negative_value_accepted:
  assumes "V (get_core_data t) (signature t) (sender_address t)" and "value_tx t < (0::real)"
    and "value_tx t \<le> get_balance nd (sender_address t)"
  shows "submit_transaction V nd t =
         (Inr (), nd\<lparr>pending_transactions := pending_transactions nd @ [t]\<rparr>)"
  using assms by (simp add: submit_transaction_def Transaction_validate_def)

lemma negative_value_contribution:
  assumes "value_tx t < 0"
  shows "contribution (sender_address t) t = \<bar>value_tx t\<bar>"
    and "Some (recipient_address t) \<noteq> sender_address t \<Longrightarrow>
         contribution (Some (recipient_address t)) t = - \<bar>value_tx t\<bar>"
    and "Some (recipient_address t) = sender_address t \<Longrightarrow>
         contribution (Some (recipient_address t)) t = \<bar>value_tx t\<bar>"
  using assms by (auto simp: contribution_eq)

text \<open>
  C10. \<open>alice\<close>, holding 2, transfers -1 to herself; the transfer is accepted and
  mined. Her balance is then 5: the genesis reward, plus 1 for the sender, plus the
  reward of the block. The recipient's decrement of 1 is skipped by the \<open>elif\<close> of
  \<open>get_balance\<close>; with it the balance is 4.
\<close>

theorem negative_self_transfer:
  "submit_transaction demo_verify ledger0 (self_pay (- 1)) =
     (Inr (), ledger0\<lparr>pending_transactions := [self_pay (- 1)]\<rparr>) \<and>
   mine_block demo_sha 1 (ledger0\<lparr>pending_transactions := [self_pay (- 1)]\<rparr>) =
     Some (ledger0\<lparr>blocks := [genesis_block, second_block [self_pay (- 1)]]\<rparr>) \<and>
   get_balance (ledger0\<lparr>blocks := [genesis_block, second_block [self_pay (- 1)]]\<rparr>)
     (Some alice) = 5 \<and>
   spec_balance (ledger0\<lparr>blocks := [genesis_block, second_block [self_pay (- 1)]]\<rparr>)
     (Some alice) = 4"
proof -
  have "submit_transaction demo_verify (ledger0\<lparr>pending_transactions := []\<rparr>) (self_pay (- 1)) =
     (Inr (), ledger0\<lparr>pending_transactions := [] @ [self_pay (- 1)]\<rparr>)"
    by (rule submit_demo) (simp_all add: self_pay_def)
  then have "submit_transaction demo_verify ledger0 (self_pay (- 1)) =
     (Inr (), ledger0\<lparr>pending_transactions := [self_pay (- 1)]\<rparr>)"
    by (simp add: ledger0_def)
  moreover have "get_balance (ledger0\<lparr>blocks := [genesis_block, second_block [self_pay (- 1)]]\<rparr>)
     (Some alice) = 5"
    by (simp add: get_balance_second contribution_eq reward_to_def self_pay_def)
  moreover have "spec_balance (ledger0\<lparr>blocks := [genesis_block, second_block [self_pay (- 1)]]\<rparr>)
     (Some alice) = 4"
    by (simp add: spec_balance_def all_transactions_second spec_contribution_def reward_to_def
        self_pay_def)
  ultimately show ?thesis using mine_one [of "self_pay (- 1)"] by blast
qed

section \<open>Chain validation\<close>

lemma validate_chain_loop_ok:
  "(fst (validate_chain_loop H pow prev bs) = Inr ()) = chain_ok H pow prev bs"
  by (induction bs arbitrary: prev) (simp_all add: Block_validate_eq Let_def)

lemma validate_chain_loop_error:
  "fst (validate_chain_loop H pow prev bs) = Inr () \<or>
   (\<exists>e. fst (validate_chain_loop H pow prev bs) = Inl (ChainIntegrityError e))"
  by (induction bs arbitrary: prev) (simp_all add: Block_validate_eq Let_def)

lemma validate_chain_loop_blocks:
  "\<exists>k\<le>length bs. snd (validate_chain_loop H pow prev bs) =
                    map (rehashed H) (take k bs) @ drop k bs"
proof (induction bs arbitrary: prev)
  case Nil
  then show ?case by simp
next
  case (Cons b bs)
  show ?case
  proof (cases "prev_block_hash b \<noteq> prev")
    case True
    then have "snd (validate_chain_loop H pow prev (b # bs)) =
               map (rehashed H) (take 0 (b # bs)) @ drop 0 (b # bs)" by simp
    then show ?thesis by blast
  next
    case link: False
    show ?thesis
    proof (cases "pow (H (get_header b))")
      case False
      with link have "snd (validate_chain_loop H pow prev (b # bs)) =
               map (rehashed H) (take 1 (b # bs)) @ drop 1 (b # bs)"
        by (simp add: Block_validate_eq rehashed_def)
      moreover have "1 \<le> length (b # bs)" by simp
      ultimately show ?thesis by blast
    next
      case True
      from Cons.IH [of "H (get_header b)"] obtain k where k: "k \<le> length bs"
        and r: "snd (validate_chain_loop H pow (H (get_header b)) bs) =
                map (rehashed H) (take k bs) @ drop k bs" by blast
      from link True r have "snd (validate_chain_loop H pow prev (b # bs)) =
               map (rehashed H) (take (Suc k) (b # bs)) @ drop (Suc k) (b # bs)"
        by (simp add: Block_validate_eq rehashed_def Let_def)
      moreover from k have "Suc k \<le> length (b # bs)" by simp
      ultimately show ?thesis by blast
    qed
  qed
qed

lemma rehashed_id: "block_hash b = H (get_header b) \<Longrightarrow> rehashed H b = b"
  by (simp add: rehashed_def)

lemma map_rehashed_id:
  "\<forall>b \<in> set bs. block_hash b = H (get_header b) \<Longrightarrow> map (rehashed H) bs = bs"
  by (induction bs) (simp_all add: rehashed_id)

lemma chain_ok_nth:
  "chain_ok H pow prev bs =
     (\<forall>i<length bs.
        prev_block_hash (bs ! i) = (if i = 0 then prev else H (get_header (bs ! (i - 1)))) \<and>
        pow (H (get_header (bs ! i))))"
proof (induction bs arbitrary: prev)
  case Nil
  then show ?case by simp
next
  case (Cons b bs)
  have "(\<forall>i<length bs.
          prev_block_hash (bs ! i) =
            (if i = 0 then H (get_header b) else H (get_header (bs ! (i - 1)))) \<and>
          pow (H (get_header (bs ! i)))) =
        (\<forall>i<length bs.
          prev_block_hash ((b # bs) ! Suc i) = H (get_header ((b # bs) ! i)) \<and>
          pow (H (get_header ((b # bs) ! Suc i))))"
    by (intro all_cong) (auto simp: nth_Cons split: nat.splits)
  then show ?case
    by (simp add: Cons.IH All_less_Suc2)
qed

lemma chain_ok_nthD:
  assumes "chain_ok H pow prev bs" and "i < length bs"
  shows "prev_block_hash (bs ! i) = (if i = 0 then prev else H (get_header (bs ! (i - 1))))"
    and "pow (H (get_header (bs ! i)))"
  using assms unfolding chain_ok_nth by blast+

lemma linked_chain_ok: "linked H pow prev bs \<Longrightarrow> chain_ok H pow prev bs"
  by (induction bs arbitrary: prev) simp_all

lemma linked_cached: "linked H pow prev bs \<Longrightarrow> \<forall>b \<in> set bs. block_hash b = H (get_header b)"
  by (induction bs arbitrary: prev) auto

lemma validate_chain_fst:
  "fst (validate_chain H nd) = fst (validate_chain_loop H (proof_of_work_func nd) ''-'' (blocks nd))"
  by (simp add: validate_chain_def Let_def)

lemma validate_chain_sound:
  assumes "sound H nd"
  shows "validate_chain H nd = (Inr (), nd)"
proof -
  from assms have l: "linked H (proof_of_work_func nd) ''-'' (blocks nd)"
    by (auto simp: sound_def)
  from linked_chain_ok [OF l]
  have f: "fst (validate_chain_loop H (proof_of_work_func nd) ''-'' (blocks nd)) = Inr ()"
    by (simp add: validate_chain_loop_ok)
  from validate_chain_loop_blocks [of "blocks nd" H "proof_of_work_func nd" "''-''"]
  obtain k where "snd (validate_chain_loop H (proof_of_work_func nd) ''-'' (blocks nd)) =
      map (rehashed H) (take k (blocks nd)) @ drop k (blocks nd)" by blast
  moreover have "map (rehashed H) (take k (blocks nd)) = take k (blocks nd)"
    using linked_cached [OF l] by (intro map_rehashed_id) (auto dest: in_set_takeD)
  ultimately have "snd (validate_chain_loop H (proof_of_work_func nd) ''-'' (blocks nd)) = blocks nd"
    by simp
  with f show ?thesis by (simp add: validate_chain_def Let_def)
qed

lemma validate_chain_loop_link_fail:
  assumes "k < length bs" and "chain_ok H pow prev (take k bs)"
    and "prev_block_hash (bs ! k) \<noteq> (if k = 0 then prev else H (get_header (bs ! (k - 1))))"
  shows "validate_chain_loop H pow prev bs =
         (Inl (ChainIntegrityError None), map (rehashed H) (take k bs) @ drop k bs)"
  using assms
proof (induction bs arbitrary: prev k)
  case Nil
  then show ?case by simp
next
  case (Cons b bs)
  show ?case
  proof (cases k)
    case 0
    with Cons.prems show ?thesis by simp
  next
    case (Suc j)
    with Cons.prems have j: "j < length bs"
      and ok: "prev_block_hash b = prev" "pow (H (get_header b))"
      and rest: "chain_ok H pow (H (get_header b)) (take j bs)"
      and bad: "prev_block_hash (bs ! j) \<noteq>
                  (if j = 0 then H (get_header b) else H (get_header (bs ! (j - 1))))"
      by (auto simp: nth_Cons split: nat.splits)
    from Cons.IH [OF j rest bad] ok Suc show ?thesis
      by (simp add: Block_validate_eq rehashed_def Let_def)
  qed
qed

lemma validate_chain_loop_pow_fail:
  assumes "k < length bs" and "chain_ok H pow prev (take k bs)"
    and "prev_block_hash (bs ! k) = (if k = 0 then prev else H (get_header (bs ! (k - 1))))"
    and "\<not> pow (H (get_header (bs ! k)))"
  shows "validate_chain_loop H pow prev bs =
         (Inl (ChainIntegrityError (Some (num (bs ! k)))),
          map (rehashed H) (take (Suc k) bs) @ drop (Suc k) bs)"
  using assms
proof (induction bs arbitrary: prev k)
  case Nil
  then show ?case by simp
next
  case (Cons b bs)
  show ?case
  proof (cases k)
    case 0
    with Cons.prems show ?thesis by (simp add: Block_validate_eq rehashed_def)
  next
    case (Suc j)
    with Cons.prems have j: "j < length bs"
      and ok: "prev_block_hash b = prev" "pow (H (get_header b))"
      and rest: "chain_ok H pow (H (get_header b)) (take j bs)"
      and link: "prev_block_hash (bs ! j) =
                  (if j = 0 then H (get_header b) else H (get_header (bs ! (j - 1))))"
      and bad: "\<not> pow (H (get_header (bs ! j)))"
      by (auto simp: nth_Cons split: nat.splits)
    from Cons.IH [OF j rest link bad] ok Suc show ?thesis
      by (simp add: Block_validate_eq rehashed_def Let_def)
  qed
qed

lemma chain_ok_fail_index:
  assumes "\<not> chain_ok H pow prev bs"
  shows "\<exists>k<length bs. chain_ok H pow prev (take k bs) \<and>
           (prev_block_hash (bs ! k) \<noteq> (if k = 0 then prev else H (get_header (bs ! (k - 1)))) \<or>
            \<not> pow (H (get_header (bs ! k))))"
  using assms
proof (induction bs arbitrary: prev)
  case Nil
  then show ?case by simp
next
  case (Cons b bs)
  show ?case
  proof (cases "prev_block_hash b = prev \<and> pow (H (get_header b))")
    case False
    then have "chain_ok H pow prev (take 0 (b # bs)) \<and>
           (prev_block_hash ((b # bs) ! 0) \<noteq> (if (0::nat) = 0 then prev
               else H (get_header ((b # bs) ! (0 - 1)))) \<or>
            \<not> pow (H (get_header ((b # bs) ! 0))))" by auto
    moreover have "0 < length (b # bs)" by simp
    ultimately show ?thesis by blast
  next
    case True
    with Cons.prems have "\<not> chain_ok H pow (H (get_header b)) bs" by simp
    from Cons.IH [OF this] obtain j where j: "j < length bs"
      and ok: "chain_ok H pow (H (get_header b)) (take j bs)"
      and bad: "prev_block_hash (bs ! j) \<noteq>
                  (if j = 0 then H (get_header b) else H (get_header (bs ! (j - 1)))) \<or>
                \<not> pow (H (get_header (bs ! j)))"
      by blast
    from True ok have "chain_ok H pow prev (take (Suc j) (b # bs))" by simp
    moreover from bad have "prev_block_hash ((b # bs) ! Suc j) \<noteq>
          (if Suc j = 0 then prev else H (get_header ((b # bs) ! (Suc j - 1)))) \<or>
          \<not> pow (H (get_header ((b # bs) ! Suc j)))"
      by (cases j) auto
    moreover from j have "Suc j < length (b # bs)" by simp
    ultimately show ?thesis by blast
  qed
qed

lemma reachable_ledger1:
  "reachable demo_sha demo_verify (ledger0\<lparr>blocks := [genesis_block, second_block [pay]]\<rparr>)"
proof -
  have "reachable demo_sha demo_verify ledger0"
    by (rule reachable.construct [OF init_demo])
  then have "reachable demo_sha demo_verify (ledger0\<lparr>pending_transactions := [pay]\<rparr>)"
    by (rule reachable.submit [OF _ submit_pay])
  then show ?thesis
    by (rule reachable.mine [OF _ mine_pay])
qed

text \<open>
  C5, as amended. A \<open>validate_chain\<close> call that raises leaves the pending queue, the miner
  address, the predicate and every field of every stored block other than the stored
  hash as they were, and overwrites the stored hash of exactly the blocks it hashed by
  their recomputed hash. When the link test fails at block \<open>k\<close> (the blocks before it
  passing both tests), these are the blocks before \<open>k\<close>; when the predicate fails at
  block \<open>k\<close>, these are the blocks up to and including \<open>k\<close>; the later blocks keep their
  stored hash. Every raising call is of one of these two kinds. The ledger is exactly as
  before when every stored hash already was the recomputed one.
\<close>

theorem validate_chain_state:
  "(\<forall>k. k < length (blocks nd) \<and>
        chain_ok H (proof_of_work_func nd) ''-'' (take k (blocks nd)) \<and>
        prev_block_hash (blocks nd ! k) \<noteq>
          (if k = 0 then ''-'' else H (get_header (blocks nd ! (k - 1)))) \<longrightarrow>
        validate_chain H nd =
          (Inl (ChainIntegrityError None),
           nd\<lparr>blocks := map (\<lambda>b. b\<lparr>block_hash := H (get_header b)\<rparr>) (take k (blocks nd)) @
                         drop k (blocks nd)\<rparr>)) \<and>
   (\<forall>k. k < length (blocks nd) \<and>
        chain_ok H (proof_of_work_func nd) ''-'' (take k (blocks nd)) \<and>
        prev_block_hash (blocks nd ! k) =
          (if k = 0 then ''-'' else H (get_header (blocks nd ! (k - 1)))) \<and>
        \<not> proof_of_work_func nd (H (get_header (blocks nd ! k))) \<longrightarrow>
        validate_chain H nd =
          (Inl (ChainIntegrityError (Some (num (blocks nd ! k)))),
           nd\<lparr>blocks := map (\<lambda>b. b\<lparr>block_hash := H (get_header b)\<rparr>) (take (Suc k) (blocks nd)) @
                         drop (Suc k) (blocks nd)\<rparr>)) \<and>
   (fst (validate_chain H nd) \<noteq> Inr () \<longrightarrow>
      (\<exists>k<length (blocks nd).
         chain_ok H (proof_of_work_func nd) ''-'' (take k (blocks nd)) \<and>
         (prev_block_hash (blocks nd ! k) \<noteq>
            (if k = 0 then ''-'' else H (get_header (blocks nd ! (k - 1)))) \<or>
          \<not> proof_of_work_func nd (H (get_header (blocks nd ! k)))))) \<and>
   ((\<forall>b \<in> set (blocks nd). block_hash b = H (get_header b)) \<longrightarrow>
      snd (validate_chain H nd) = nd)"
proof (intro conjI allI impI)
  have m: "rehashed H = (\<lambda>b. b\<lparr>block_hash := H (get_header b)\<rparr>)"
    by (rule ext) (simp add: rehashed_def)
  {
    fix k
    assume "k < length (blocks nd) \<and>
        chain_ok H (proof_of_work_func nd) ''-'' (take k (blocks nd)) \<and>
        prev_block_hash (blocks nd ! k) \<noteq>
          (if k = 0 then ''-'' else H (get_header (blocks nd ! (k - 1))))"
    then have "validate_chain_loop H (proof_of_work_func nd) ''-'' (blocks nd) =
         (Inl (ChainIntegrityError None),
          map (rehashed H) (take k (blocks nd)) @ drop k (blocks nd))"
      by (intro validate_chain_loop_link_fail) simp_all
    then show "validate_chain H nd =
          (Inl (ChainIntegrityError None),
           nd\<lparr>blocks := map (\<lambda>b. b\<lparr>block_hash := H (get_header b)\<rparr>) (take k (blocks nd)) @
                         drop k (blocks nd)\<rparr>)"
      by (simp add: validate_chain_def m)
  }
  {
    fix k
    assume "k < length (blocks nd) \<and>
        chain_ok H (proof_of_work_func nd) ''-'' (take k (blocks nd)) \<and>
        prev_block_hash (blocks nd ! k) =
          (if k = 0 then ''-'' else H (get_header (blocks nd ! (k - 1)))) \<and>
        \<not> proof_of_work_func nd (H (get_header (blocks nd ! k)))"
    then have "validate_chain_loop H (proof_of_work_func nd) ''-'' (blocks nd) =
         (Inl (ChainIntegrityError (Some (num (blocks nd ! k)))),
          map (rehashed H) (take (Suc k) (blocks nd)) @ drop (Suc k) (blocks nd))"
      by (intro validate_chain_loop_pow_fail) simp_all
    then show "validate_chain H nd =
          (Inl (ChainIntegrityError (Some (num (blocks nd ! k)))),
           nd\<lparr>blocks := map (\<lambda>b. b\<lparr>block_hash := H (get_header b)\<rparr>) (take (Suc k) (blocks nd)) @
                         drop (Suc k) (blocks nd)\<rparr>)"
      by (simp add: validate_chain_def m)
  }
  {
    assume "fst (validate_chain H nd) \<noteq> Inr ()"
    then have "\<not> chain_ok H (proof_of_work_func nd) ''-'' (blocks nd)"
      by (simp add: validate_chain_fst validate_chain_loop_ok)
    then show "\<exists>k<length (blocks nd).
         chain_ok H (proof_of_work_func nd) ''-'' (take k (blocks nd)) \<and>
         (prev_block_hash (blocks nd ! k) \<noteq>
            (if k = 0 then ''-'' else H (get_header (blocks nd ! (k - 1)))) \<or>
          \<not> proof_of_work_func nd (H (get_header (blocks nd ! k))))"
      by (rule chain_ok_fail_index)
  }
  {
    assume c: "\<forall>b \<in> set (blocks nd). block_hash b = H (get_header b)"
    from validate_chain_loop_blocks [of "blocks nd" H "proof_of_work_func nd" "''-''"]
    obtain k where r: "snd (validate_chain_loop H (proof_of_work_func nd) ''-'' (blocks nd)) =
        map (rehashed H) (take k (blocks nd)) @ drop k (blocks nd)" by blast
    have "map (rehashed H) (take k (blocks nd)) = take k (blocks nd)"
      using c by (intro map_rehashed_id) (auto dest: in_set_takeD)
    with r show "snd (validate_chain H nd) = nd" by (simp add: validate_chain_def Let_def)
  }
qed

theorem validate_chain_state_witness:
  "validate_chain demo_sha
     (ledger0\<lparr>blocks := [genesis_block\<lparr>timestamp := 5\<rparr>, second_block [pay]]\<rparr>) =
     (Inl (ChainIntegrityError None),
      ledger0\<lparr>blocks := [genesis_block\<lparr>timestamp := 5, block_hash := ''b7000''\<rparr>,
                         second_block [pay]]\<rparr>) \<and>
   validate_chain demo_sha
     (ledger0\<lparr>blocks := [genesis_block\<lparr>timestamp := 5\<rparr>,
                         (second_block [pay])\<lparr>prev_block_hash := ''b7000'',
                                              transactions := [reward_to alice]\<rparr>,
                         second_block [pay]]\<rparr>) =
     (Inl (ChainIntegrityError (Some 1)),
      ledger0\<lparr>blocks := [genesis_block\<lparr>timestamp := 5, block_hash := ''b7000''\<rparr>,
                         (second_block [pay])\<lparr>prev_block_hash := ''b7000'',
                                              transactions := [reward_to alice],
                                              block_hash := ''b7fff''\<rparr>,
                         second_block [pay]]\<rparr>)"
proof -
  let ?g = "genesis_block\<lparr>timestamp := 5\<rparr>"
  let ?s = "(second_block [pay])\<lparr>prev_block_hash := ''b7000'', transactions := [reward_to alice]\<rparr>"
  let ?a = "ledger0\<lparr>blocks := [?g, second_block [pay]]\<rparr>"
  let ?b = "ledger0\<lparr>blocks := [?g, ?s, second_block [pay]]\<rparr>"
  have pa: "Suc 0 < length (blocks ?a) \<and>
        chain_ok demo_sha (proof_of_work_func ?a) ''-'' (take (Suc 0) (blocks ?a)) \<and>
        prev_block_hash (blocks ?a ! Suc 0) \<noteq>
          (if Suc 0 = 0 then ''-'' else demo_sha (get_header (blocks ?a ! (Suc 0 - 1))))"
    by (simp add: ledger0_def genesis_block_def second_block_def get_header_def demo_sha_def
        endswith_def)
  have pb: "Suc 0 < length (blocks ?b) \<and>
        chain_ok demo_sha (proof_of_work_func ?b) ''-'' (take (Suc 0) (blocks ?b)) \<and>
        prev_block_hash (blocks ?b ! Suc 0) =
          (if Suc 0 = 0 then ''-'' else demo_sha (get_header (blocks ?b ! (Suc 0 - 1)))) \<and>
        \<not> proof_of_work_func ?b (demo_sha (get_header (blocks ?b ! Suc 0)))"
    by (simp add: ledger0_def genesis_block_def second_block_def get_header_def demo_sha_def
        endswith_def)
  from validate_chain_state [of ?a demo_sha] pa
  have "validate_chain demo_sha ?a =
          (Inl (ChainIntegrityError None),
           ?a\<lparr>blocks := map (\<lambda>b. b\<lparr>block_hash := demo_sha (get_header b)\<rparr>)
                             (take (Suc 0) (blocks ?a)) @ drop (Suc 0) (blocks ?a)\<rparr>)"
    by blast
  then have a: "validate_chain demo_sha ?a =
     (Inl (ChainIntegrityError None),
      ledger0\<lparr>blocks := [genesis_block\<lparr>timestamp := 5, block_hash := ''b7000''\<rparr>,
                         second_block [pay]]\<rparr>)"
    by (simp add: ledger0_def genesis_block_def get_header_def demo_sha_def)
  from validate_chain_state [of ?b demo_sha] pb
  have "validate_chain demo_sha ?b =
          (Inl (ChainIntegrityError (Some (num (blocks ?b ! Suc 0)))),
           ?b\<lparr>blocks := map (\<lambda>b. b\<lparr>block_hash := demo_sha (get_header b)\<rparr>)
                             (take (Suc (Suc 0)) (blocks ?b)) @ drop (Suc (Suc 0)) (blocks ?b)\<rparr>)"
    by blast
  then have b: "validate_chain demo_sha ?b =
     (Inl (ChainIntegrityError (Some 1)),
      ledger0\<lparr>blocks := [genesis_block\<lparr>timestamp := 5, block_hash := ''b7000''\<rparr>,
                         ?s\<lparr>block_hash := ''b7fff''\<rparr>, second_block [pay]]\<rparr>)"
    by (simp add: ledger0_def genesis_block_def second_block_def get_header_def demo_sha_def)
  from a b show ?thesis by simp
qed

text \<open>
  C5, as stated, fails on a ledger that was tampered with: the timestamp of the first of
  two blocks is changed. \<open>validate_chain\<close> hashes that block, stores the new hash in it
  and raises at the link of the second block. The stored hash of the first block is
  \<open>a7000\<close> before the call and \<open>b7000\<close> after it.
\<close>

theorem validate_chain_overwrites_hash:
  "validate_chain demo_sha
     (ledger0\<lparr>blocks := [genesis_block\<lparr>timestamp := 5\<rparr>, second_block [pay]]\<rparr>) =
     (Inl (ChainIntegrityError None),
      ledger0\<lparr>blocks := [genesis_block\<lparr>timestamp := 5, block_hash := ''b7000''\<rparr>,
                         second_block [pay]]\<rparr>) \<and>
   block_hash (genesis_block\<lparr>timestamp := 5\<rparr>) = ''a7000'' \<and>
   snd (validate_chain demo_sha
     (ledger0\<lparr>blocks := [genesis_block\<lparr>timestamp := 5\<rparr>, second_block [pay]]\<rparr>)) \<noteq>
     ledger0\<lparr>blocks := [genesis_block\<lparr>timestamp := 5\<rparr>, second_block [pay]]\<rparr>"
  by (simp add: validate_chain_def Let_def Block_validate_eq ledger0_def genesis_block_def
      second_block_def get_header_def demo_sha_def endswith_def)

text \<open>
  C6, as amended. In a reachable ledger, replace one stored block by a block whose
  recomputed hash differs (a changed value, timestamp or transaction list among others),
  without mining again. \<open>validate_chain\<close> then raises \<open>ChainIntegrityError\<close> whenever the
  block is not the last one, and whenever the new hash fails the predicate. When the
  block is the last one, keeps its previous-hash field and its new hash satisfies the
  predicate, \<open>validate_chain\<close> returns.
\<close>

theorem tamper_detected:
  assumes "reachable H V nd" and "i < length (blocks nd)"
    and "H (get_header b') \<noteq> H (get_header (blocks nd ! i))"
  shows "(Suc i < length (blocks nd) \<or> \<not> proof_of_work_func nd (H (get_header b')) \<longrightarrow>
            (\<exists>e. fst (validate_chain H (nd\<lparr>blocks := (blocks nd)[i := b']\<rparr>)) =
                   Inl (ChainIntegrityError e))) \<and>
         (Suc i = length (blocks nd) \<and> prev_block_hash b' = prev_block_hash (blocks nd ! i) \<and>
          proof_of_work_func nd (H (get_header b')) \<longrightarrow>
            fst (validate_chain H (nd\<lparr>blocks := (blocks nd)[i := b']\<rparr>)) = Inr ())"
proof (intro conjI impI)
  let ?pow = "proof_of_work_func nd"
  let ?bs = "blocks nd"
  let ?cs = "(blocks nd)[i := b']"
  from reachable_sound [OF assms(1)] have l: "linked H ?pow ''-'' ?bs"
    by (auto simp: sound_def)
  have f: "fst (validate_chain H (nd\<lparr>blocks := ?cs\<rparr>)) = fst (validate_chain_loop H ?pow ''-'' ?cs)"
    by (simp add: validate_chain_fst)
  {
    assume d: "Suc i < length ?bs \<or> \<not> ?pow (H (get_header b'))"
    have "\<not> chain_ok H ?pow ''-'' ?cs"
    proof
      assume ok: "chain_ok H ?pow ''-'' ?cs"
      from assms(2) have "i < length ?cs" by simp
      from chain_ok_nthD(2) [OF ok this] assms(2) have "?pow (H (get_header b'))" by simp
      with d have n: "Suc i < length ?bs" by blast
      then have "Suc i < length ?cs" by simp
      from chain_ok_nthD(1) [OF ok this]
      have "prev_block_hash (?cs ! Suc i) = H (get_header (?cs ! i))" by simp
      with n have "prev_block_hash (?bs ! Suc i) = H (get_header b')" by simp
      moreover from linked_nth [OF l n] have "prev_block_hash (?bs ! Suc i) = H (get_header (?bs ! i))"
        by simp
      ultimately show False using assms(3) by simp
    qed
    then have "fst (validate_chain_loop H ?pow ''-'' ?cs) \<noteq> Inr ()"
      by (simp add: validate_chain_loop_ok)
    with validate_chain_loop_error [of H ?pow "''-''" ?cs]
    show "\<exists>e. fst (validate_chain H (nd\<lparr>blocks := ?cs\<rparr>)) = Inl (ChainIntegrityError e)"
      unfolding f by blast
  }
  {
    assume a: "Suc i = length ?bs \<and> prev_block_hash b' = prev_block_hash (?bs ! i) \<and>
               ?pow (H (get_header b'))"
    have "chain_ok H ?pow ''-'' ?cs"
      unfolding chain_ok_nth
    proof (intro allI impI)
      fix j assume "j < length ?cs"
      then have j: "j < length ?bs" by simp
      note lj = linked_nth [OF l j]
      show "prev_block_hash (?cs ! j) = (if j = 0 then ''-'' else H (get_header (?cs ! (j - 1)))) \<and>
            ?pow (H (get_header (?cs ! j)))"
      proof (cases "j = i")
        case True
        with a j lj show ?thesis by (cases i) simp_all
      next
        case False
        with a j have "j < i" by simp
        then have "j - 1 \<noteq> i" and "j \<noteq> i" by simp_all
        with lj show ?thesis by simp
      qed
    qed
    then show "fst (validate_chain H (nd\<lparr>blocks := ?cs\<rparr>)) = Inr ()"
      unfolding f by (simp add: validate_chain_loop_ok)
  }
qed

theorem tamper_detected_witness:
  "(\<exists>e. fst (validate_chain demo_sha
            (ledger0\<lparr>blocks := [genesis_block\<lparr>timestamp := 5\<rparr>, second_block [pay]]\<rparr>)) =
        Inl (ChainIntegrityError e)) \<and>
   (\<exists>e. fst (validate_chain demo_sha
            (ledger0\<lparr>blocks := [genesis_block,
                                (second_block [pay])\<lparr>transactions := [reward_to alice]\<rparr>]\<rparr>)) =
        Inl (ChainIntegrityError e)) \<and>
   fst (validate_chain demo_sha
            (ledger0\<lparr>blocks := [genesis_block, (second_block [pay])\<lparr>timestamp := 0\<rparr>]\<rparr>)) =
     Inr ()"
proof -
  let ?nd = "ledger0\<lparr>blocks := [genesis_block, second_block [pay]]\<rparr>"
  let ?g = "genesis_block\<lparr>timestamp := 5\<rparr>"
  let ?s = "(second_block [pay])\<lparr>transactions := [reward_to alice]\<rparr>"
  let ?t = "(second_block [pay])\<lparr>timestamp := 0\<rparr>"
  have len: "0 < length (blocks ?nd)" "Suc 0 < length (blocks ?nd)" by (simp_all add: ledger0_def)
  have pw: "proof_of_work_func ?nd = (\<lambda>x. endswith x ''000'')" by (simp add: ledger0_def)
  have hg: "demo_sha (get_header ?g) \<noteq> demo_sha (get_header (blocks ?nd ! 0))"
    by (simp add: ledger0_def genesis_block_def get_header_def demo_sha_def)
  have hs: "demo_sha (get_header ?s) \<noteq> demo_sha (get_header (blocks ?nd ! Suc 0))"
    by (simp add: ledger0_def second_block_def get_header_def demo_sha_def)
  have ht: "demo_sha (get_header ?t) \<noteq> demo_sha (get_header (blocks ?nd ! Suc 0))"
    by (simp add: ledger0_def second_block_def get_header_def demo_sha_def)
  have ps: "\<not> proof_of_work_func ?nd (demo_sha (get_header ?s))"
    by (simp add: ledger0_def second_block_def get_header_def)
  have pt: "proof_of_work_func ?nd (demo_sha (get_header ?t))"
    by (simp add: ledger0_def second_block_def get_header_def)
  have up: "?nd\<lparr>blocks := (blocks ?nd)[0 := ?g]\<rparr> = ledger0\<lparr>blocks := [?g, second_block [pay]]\<rparr>"
    "?nd\<lparr>blocks := (blocks ?nd)[Suc 0 := ?s]\<rparr> = ledger0\<lparr>blocks := [genesis_block, ?s]\<rparr>"
    "?nd\<lparr>blocks := (blocks ?nd)[Suc 0 := ?t]\<rparr> = ledger0\<lparr>blocks := [genesis_block, ?t]\<rparr>"
    by (simp_all add: ledger0_def)
  from tamper_detected [OF reachable_ledger1 len(1) hg] len(2)
  have a: "\<exists>e. fst (validate_chain demo_sha (ledger0\<lparr>blocks := [?g, second_block [pay]]\<rparr>)) =
             Inl (ChainIntegrityError e)"
    unfolding up by blast
  from tamper_detected [OF reachable_ledger1 len(2) hs] ps
  have b: "\<exists>e. fst (validate_chain demo_sha (ledger0\<lparr>blocks := [genesis_block, ?s]\<rparr>)) =
             Inl (ChainIntegrityError e)"
    unfolding up by blast
  have "Suc (Suc 0) = length (blocks ?nd)"
    and "prev_block_hash ?t = prev_block_hash (blocks ?nd ! Suc 0)"
    by (simp_all add: ledger0_def)
  with tamper_detected [OF reachable_ledger1 len(2) ht] pt
  have c: "fst (validate_chain demo_sha (ledger0\<lparr>blocks := [genesis_block, ?t]\<rparr>)) = Inr ()"
    unfolding up by blast
  from a b c show ?thesis by blast
qed

text \<open>
  C6, as stated, fails for the last block: the timestamp of the second of two mined
  blocks is changed, the recomputed hash changes from \<open>b77000\<close> to \<open>a77000\<close>, which the
  predicate accepts as well, and \<open>validate_chain\<close> returns.
\<close>

theorem tail_mutation_undetected:
  "reachable demo_sha demo_verify (ledger0\<lparr>blocks := [genesis_block, second_block [pay]]\<rparr>) \<and>
   demo_sha (get_header (second_block [pay])) = ''b77000'' \<and>
   demo_sha (get_header ((second_block [pay])\<lparr>timestamp := 0\<rparr>)) = ''a77000'' \<and>
   fst (validate_chain demo_sha
          (ledger0\<lparr>blocks := [genesis_block, (second_block [pay])\<lparr>timestamp := 0\<rparr>]\<rparr>)) =
     Inr ()"
proof -
  have "demo_sha (get_header (second_block [pay])) = ''b77000''"
    and "demo_sha (get_header ((second_block [pay])\<lparr>timestamp := 0\<rparr>)) = ''a77000''"
    by (simp_all add: second_block_def get_header_def demo_sha_def)
  moreover have "fst (validate_chain demo_sha
          (ledger0\<lparr>blocks := [genesis_block, (second_block [pay])\<lparr>timestamp := 0\<rparr>]\<rparr>)) =
     Inr ()"
    by (simp add: validate_chain_def Let_def Block_validate_eq ledger0_def genesis_block_def
        second_block_def get_header_def demo_sha_def endswith_def)
  ultimately show ?thesis using reachable_ledger1 by blast
qed

section \<open>Conservation apart from self-transfers\<close>

lemma sum_list_swap:
  "(\<Sum>a\<leftarrow>xs. \<Sum>t\<leftarrow>ts. (f a t :: real)) = (\<Sum>t\<leftarrow>ts. \<Sum>a\<leftarrow>xs. f a t)"
  by (induction xs) (simp_all add: sum_list_addf)

lemma sum_list_indicator:
  "distinct xs \<Longrightarrow> (\<Sum>a\<leftarrow>xs. if x = a then (c::real) else 0) = (if x \<in> set xs then c else 0)"
  by (induction xs) auto

lemma sum_contribution_addresses:
  assumes "distinct xs" and "recipient_address t \<in> set xs"
    and "\<forall>s. sender_address t = Some s \<longrightarrow> s \<in> set xs"
  shows "(\<Sum>a\<leftarrow>xs. contribution (Some a) t) =
         (if sender_address t = None then value_tx t
          else if sender_address t = Some (recipient_address t) then - value_tx t else 0)"
proof -
  have split: "contribution (Some a) t =
      (if sender_address t = Some a then - value_tx t else 0) +
      (if recipient_address t = a then
         (if sender_address t = Some (recipient_address t) then 0 else value_tx t) else 0)" for a
    by (auto simp: contribution_eq)
  have s: "(\<Sum>a\<leftarrow>xs. if sender_address t = Some a then - value_tx t else 0) =
           (if sender_address t = None then 0 else - value_tx t)"
  proof (cases "sender_address t")
    case None
    then show ?thesis by simp
  next
    case (Some s)
    with assms(3) have "s \<in> set xs" by simp
    with Some sum_list_indicator [OF assms(1), of s "- value_tx t"] show ?thesis by simp
  qed
  have r: "(\<Sum>a\<leftarrow>xs. if recipient_address t = a then
              (if sender_address t = Some (recipient_address t) then 0 else value_tx t) else 0) =
           (if sender_address t = Some (recipient_address t) then 0 else value_tx t)"
    using sum_list_indicator [OF assms(1), of "recipient_address t"] assms(2) by simp
  show ?thesis
    unfolding split sum_list_addf s r by auto
qed

lemma seen_addresses_distinct: "distinct (seen_addresses nd)"
  by (simp add: seen_addresses_def)

lemma seen_addresses_mem:
  assumes "t \<in> set (all_transactions nd)"
  shows "recipient_address t \<in> set (seen_addresses nd)"
    and "sender_address t = Some s \<Longrightarrow> s \<in> set (seen_addresses nd)"
  using assms by (auto simp: seen_addresses_def intro!: bexI [of _ t])

lemma total_balance_sum:
  "total_balance nd =
     (\<Sum>t\<leftarrow>all_transactions nd.
        if sender_address t = None then value_tx t
        else if sender_address t = Some (recipient_address t) then - value_tx t else 0)"
proof -
  have "total_balance nd =
        (\<Sum>a\<leftarrow>seen_addresses nd. \<Sum>t\<leftarrow>all_transactions nd. contribution (Some a) t)"
    by (simp add: total_balance_def get_balance_sum)
  also have "\<dots> = (\<Sum>t\<leftarrow>all_transactions nd. \<Sum>a\<leftarrow>seen_addresses nd. contribution (Some a) t)"
    by (rule sum_list_swap)
  also have "\<dots> = (\<Sum>t\<leftarrow>all_transactions nd.
        if sender_address t = None then value_tx t
        else if sender_address t = Some (recipient_address t) then - value_tx t else 0)"
  proof (rule arg_cong [where f = sum_list], rule map_cong [OF refl])
    fix t assume t: "t \<in> set (all_transactions nd)"
    show "(\<Sum>a\<leftarrow>seen_addresses nd. contribution (Some a) t) =
        (if sender_address t = None then value_tx t
         else if sender_address t = Some (recipient_address t) then - value_tx t else 0)"
      by (rule sum_contribution_addresses [OF seen_addresses_distinct seen_addresses_mem(1) [OF t]])
         (simp add: seen_addresses_mem(2) [OF t])
  qed
  finally show ?thesis .
qed

lemma all_transactions_mine:
  "all_transactions (nd\<lparr>blocks := blocks nd @ [mined H (new_block now nd) m],
                       pending_transactions := []\<rparr>) =
   all_transactions nd @ pending_transactions nd @
   [\<lparr>sender_address = None, recipient_address = miner_address nd,
     value_tx = REWARD_AMOUNT, signature = None\<rparr>]"
  by (simp add: all_transactions_def)

lemma reachable_issued:
  assumes "reachable H V nd" and "\<forall>c s. \<not> V c s None"
  shows "(\<Sum>t\<leftarrow>all_transactions nd. if sender_address t = None then value_tx t else 0) =
           real (length (blocks nd)) * REWARD_AMOUNT \<and>
         (\<forall>t \<in> set (pending_transactions nd). sender_address t \<noteq> None)"
  using assms(1)
proof (induction rule: reachable.induct)
  case (construct now miner nd)
  let ?f = "fresh_node miner :: real BlockchainNode"
  from mine_block_Some [OF construct [unfolded BlockchainNode_init_def]] obtain m where
    "nd = ?f\<lparr>blocks := blocks ?f @ [mined H (new_block now ?f) m], pending_transactions := []\<rparr>
     \<and> solves H (proof_of_work_func ?f) (new_block now ?f) m" ..
  then have nd: "nd = ?f\<lparr>blocks := blocks ?f @ [mined H (new_block now ?f) m],
                        pending_transactions := []\<rparr>" ..
  show ?case
    unfolding nd all_transactions_mine
    by (simp add: fresh_node_def all_transactions_def)
next
  case (submit nd t r nd')
  have "sender_address t \<noteq> None" if "V (get_core_data t) (signature t) (sender_address t)"
    using that assms(2) by metis
  with submit.hyps(2) have "blocks nd' = blocks nd"
    and "set (pending_transactions nd') \<subseteq> set (pending_transactions nd) \<union> {t}"
    and "pending_transactions nd' \<noteq> pending_transactions nd \<longrightarrow> sender_address t \<noteq> None"
    by (auto simp: submit_transaction_def Transaction_validate_def Let_def
        split: sum.splits if_splits)
  with submit.IH show ?case
    by (auto simp: all_transactions_def)
next
  case (mine nd now nd')
  from mine_block_Some [OF mine.hyps(2)] obtain m where
    "nd' = nd\<lparr>blocks := blocks nd @ [mined H (new_block now nd) m],
                       pending_transactions := []\<rparr>
     \<and> solves H (proof_of_work_func nd) (new_block now nd) m" ..
  then have nd': "nd' = nd\<lparr>blocks := blocks nd @ [mined H (new_block now nd) m],
                       pending_transactions := []\<rparr>" ..
  from mine.IH have "(\<Sum>t\<leftarrow>pending_transactions nd.
                        if sender_address t = None then value_tx t else 0) = 0"
    by (intro sum_list_all_zero) auto
  with mine.IH show ?case
    unfolding nd' all_transactions_mine
    by (simp add: algebra_simps)
qed

text \<open>
  In a reachable ledger, when the verifier rejects a transaction without sender, the
  balances of the seen addresses sum to the reward times the number of blocks, less the
  values of the transfers whose sender is their own recipient.
\<close>

lemma total_balance_conserved:
  assumes "reachable H V nd" and "\<forall>c s. \<not> V c s None"
  shows "total_balance nd =
           real (length (blocks nd)) * REWARD_AMOUNT -
           (\<Sum>t\<leftarrow>all_transactions nd.
              if sender_address t = Some (recipient_address t) then value_tx t else 0)"
proof -
  have "(\<Sum>t\<leftarrow>ts.
          if sender_address t = None then value_tx t
          else if sender_address t = Some (recipient_address t) then - value_tx t else 0) =
        (\<Sum>t\<leftarrow>ts. if sender_address t = None then value_tx t else 0) -
        (\<Sum>t\<leftarrow>ts. if sender_address t = Some (recipient_address t) then value_tx t else 0)"
    for ts :: "real Transaction list"
    by (induction ts) simp_all
  with reachable_issued [OF assms] show ?thesis
    by (simp add: total_balance_sum)
qed

end
